theory Spec2Isabelle
  imports Main "HOL-Library.Word" "HOL-Library.Multiset" "HOL-Library.Sublist"
begin

unbundle bit_operations_syntax

section \<open>ML-DSA key codecs (providers/implementations/encode\_decode/ml\_dsa\_codecs.c)\<close>

subsection \<open>Data model\<close>

type_synonym byte = "8 word"

text \<open>
  A function of the codec either returns a value or fails. A failure either queues an
  error reason (\<open>ERR_raise_data\<close>) or just returns \<open>NULL\<close>/\<open>0\<close>
  (\<open>NO_ERROR_RAISED\<close>). \<open>MEMORY_FAULT\<close> stands for a read outside the object
  a pointer refers to (or through a \<open>NULL\<close> pointer), which C leaves undefined.
\<close>

datatype error =
    NO_ERROR_RAISED
  | PROV_R_ML_DSA_NO_FORMAT
  | PROV_R_UNEXPECTED_KEY_PARAMETERS
  | PROV_R_NOT_A_PUBLIC_KEY
  | PROV_R_NOT_A_PRIVATE_KEY
  | ERR_R_INTERNAL_ERROR
  | MEMORY_FAULT

datatype evp_type =
    EVP_PKEY_ML_DSA_44
  | EVP_PKEY_ML_DSA_65
  | EVP_PKEY_ML_DSA_87
  | EVP_PKEY_OTHER nat

record ML_DSA_PARAMS =
  alg :: string
  evp_type_of :: evp_type
  sk_len :: nat
  pk_len :: nat

record ML_DSA_SPKI_FMT =
  asn1_prefix :: "byte list"

record ML_DSA_PKCS8_FMT =
  p8_name :: string
  p8_bytes :: nat
  p8_shift :: nat
  p8_magic :: "32 word"
  seed_magic :: "16 word"
  seed_offset :: nat
  seed_length :: nat
  priv_magic :: "32 word"
  priv_offset :: nat
  priv_length :: nat
  pub_offset :: nat
  pub_length :: nat

record ML_DSA_PKCS8_FMT_PREF =
  fmt :: ML_DSA_PKCS8_FMT
  pref :: int

record ML_DSA_CODEC =
  spkifmt :: ML_DSA_SPKI_FMT
  p8fmt :: "ML_DSA_PKCS8_FMT list"

record ML_DSA_KEY =
  key_params :: ML_DSA_PARAMS
  key_seed :: "byte list option"
  key_priv :: "byte list option"
  key_pub :: "byte list option"

definition ML_DSA_SEED_BYTES :: nat where
  "ML_DSA_SEED_BYTES = 32"

definition ML_DSA_SPKI_OVERHEAD :: nat where
  "ML_DSA_SPKI_OVERHEAD = 22"

definition NUM_PKCS8_FORMATS :: nat where
  "NUM_PKCS8_FORMATS = 6"

text \<open>
  Modelled from the spec: \<open>ossl_ml_dsa_params_get\<close> (ml\_dsa\_params.c) is not among the
  sources. The sizes are those of section 6 of the specification, which are also the
  ones in the comments above each table of ml\_dsa\_codecs.c.
\<close>

definition ossl_ml_dsa_params_get :: "evp_type \<Rightarrow> ML_DSA_PARAMS option" where
  "ossl_ml_dsa_params_get t =
     (case t of
        EVP_PKEY_ML_DSA_44 \<Rightarrow>
          Some \<lparr>alg = ''ML-DSA-44'', evp_type_of = EVP_PKEY_ML_DSA_44, sk_len = 2560, pk_len = 1312\<rparr>
      | EVP_PKEY_ML_DSA_65 \<Rightarrow>
          Some \<lparr>alg = ''ML-DSA-65'', evp_type_of = EVP_PKEY_ML_DSA_65, sk_len = 4032, pk_len = 1952\<rparr>
      | EVP_PKEY_ML_DSA_87 \<Rightarrow>
          Some \<lparr>alg = ''ML-DSA-87'', evp_type_of = EVP_PKEY_ML_DSA_87, sk_len = 4896, pk_len = 2592\<rparr>
      | EVP_PKEY_OTHER n \<Rightarrow> None)"

subsection \<open>The format tables\<close>

definition mk_fmt ::
  "string \<Rightarrow> nat \<Rightarrow> nat \<Rightarrow> 32 word \<Rightarrow> 16 word \<Rightarrow> nat \<Rightarrow> nat \<Rightarrow> 32 word \<Rightarrow> nat \<Rightarrow> nat \<Rightarrow> nat \<Rightarrow> nat
     \<Rightarrow> ML_DSA_PKCS8_FMT" where
  "mk_fmt nm bytes shift magic smagic soff slen pmagic poff plen puboff publen =
     \<lparr>p8_name = nm, p8_bytes = bytes, p8_shift = shift, p8_magic = magic,
      seed_magic = smagic, seed_offset = soff, seed_length = slen,
      priv_magic = pmagic, priv_offset = poff, priv_length = plen,
      pub_offset = puboff, pub_length = publen\<rparr>"

definition ml_dsa_44_spkifmt :: ML_DSA_SPKI_FMT where
  "ml_dsa_44_spkifmt = \<lparr>asn1_prefix =
     [0x30, 0x82, 0x05, 0x32, 0x30, 0x0b, 0x06, 0x09, 0x60, 0x86, 0x48,
      0x01, 0x65, 0x03, 0x04, 0x03, 0x11, 0x03, 0x82, 0x05, 0x21, 0x00]\<rparr>"

definition ml_dsa_44_p8fmt :: "ML_DSA_PKCS8_FMT list" where
  "ml_dsa_44_p8fmt =
    [mk_fmt ''seed-priv''  0x0a2a 0 0x30820a26 0x0420 6 0x20 0x04820a00 0x2a 0x0a00 0      0,
     mk_fmt ''priv-only''  0x0a04 0 0x04820a00 0      0 0    0          0x04 0x0a00 0      0,
     mk_fmt ''oqskeypair'' 0x0f24 0 0x04820f20 0      0 0    0          0x04 0x0a00 0x0a04 0x0520,
     mk_fmt ''seed-only''  0x0022 2 0x8020     0      2 0x20 0          0    0      0      0,
     mk_fmt ''bare-priv''  0x0a00 4 0          0      0 0    0          0    0x0a00 0      0,
     mk_fmt ''bare-seed''  0x0020 4 0          0      0 0x20 0          0    0      0      0]"

definition ml_dsa_65_spkifmt :: ML_DSA_SPKI_FMT where
  "ml_dsa_65_spkifmt = \<lparr>asn1_prefix =
     [0x30, 0x82, 0x07, 0xb2, 0x30, 0x0b, 0x06, 0x09, 0x60, 0x86, 0x48,
      0x01, 0x65, 0x03, 0x04, 0x03, 0x12, 0x03, 0x82, 0x07, 0xa1, 0x00]\<rparr>"

definition ml_dsa_65_p8fmt :: "ML_DSA_PKCS8_FMT list" where
  "ml_dsa_65_p8fmt =
    [mk_fmt ''seed-priv''  0x0fea 0 0x30820fe6 0x0420 6 0x20 0x04820fc0 0x2a 0x0fc0 0      0,
     mk_fmt ''priv-only''  0x0fc4 0 0x04820fc0 0      0 0    0          0x04 0x0fc0 0      0,
     mk_fmt ''oqskeypair'' 0x1764 0 0x04821760 0      0 0    0          0x04 0x0fc0 0x0fc4 0x07a0,
     mk_fmt ''seed-only''  0x0022 2 0x8020     0      2 0x20 0          0    0      0      0,
     mk_fmt ''bare-priv''  0x0fc0 4 0          0      0 0    0          0    0x0fc0 0      0,
     mk_fmt ''bare-seed''  0x0020 4 0          0      0 0x20 0          0    0      0      0]"

definition ml_dsa_87_spkifmt :: ML_DSA_SPKI_FMT where
  "ml_dsa_87_spkifmt = \<lparr>asn1_prefix =
     [0x30, 0x82, 0x0a, 0x32, 0x30, 0x0b, 0x06, 0x09, 0x60, 0x86, 0x48,
      0x01, 0x65, 0x03, 0x04, 0x03, 0x13, 0x03, 0x82, 0x0a, 0x21, 0x00]\<rparr>"

definition ml_dsa_87_p8fmt :: "ML_DSA_PKCS8_FMT list" where
  "ml_dsa_87_p8fmt =
    [mk_fmt ''seed-priv''  0x134a 0 0x30821346 0x0420 6 0x20 0x04821320 0x2a 0x1320 0      0,
     mk_fmt ''priv-only''  0x1324 0 0x04821320 0      0 0    0          0x04 0x1320 0      0,
     mk_fmt ''oqskeypair'' 0x1d44 0 0x04821d40 0      0 0    0          0x04 0x1320 0x1324 0x0a20,
     mk_fmt ''seed-only''  0x0022 2 0x8020     0      2 0x20 0          0    0      0      0,
     mk_fmt ''bare-priv''  0x1320 4 0          0      0 0    0          0    0x1320 0      0,
     mk_fmt ''bare-seed''  0x0020 4 0          0      0 0x20 0          0    0      0      0]"

text \<open>Retrieve the tables of one of the ML-DSA variants; \<open>None\<close> is the \<open>NULL\<close> return.\<close>

definition ml_dsa_get_codec :: "evp_type \<Rightarrow> ML_DSA_CODEC option" where
  "ml_dsa_get_codec t =
     (case t of
        EVP_PKEY_ML_DSA_44 \<Rightarrow> Some \<lparr>spkifmt = ml_dsa_44_spkifmt, p8fmt = ml_dsa_44_p8fmt\<rparr>
      | EVP_PKEY_ML_DSA_65 \<Rightarrow> Some \<lparr>spkifmt = ml_dsa_65_spkifmt, p8fmt = ml_dsa_65_p8fmt\<rparr>
      | EVP_PKEY_ML_DSA_87 \<Rightarrow> Some \<lparr>spkifmt = ml_dsa_87_spkifmt, p8fmt = ml_dsa_87_p8fmt\<rparr>
      | EVP_PKEY_OTHER n \<Rightarrow> None)"

subsection \<open>Memory reads\<close>

text \<open>
  \<open>mem_read src off n\<close> are the \<open>n\<close> bytes at \<open>src + off\<close>, as \<open>memcpy\<close> and
  \<open>OPENSSL_memdup\<close> read them; \<open>None\<close> when they are not all inside \<open>src\<close>.
\<close>

definition mem_read :: "byte list \<Rightarrow> nat \<Rightarrow> nat \<Rightarrow> byte list option" where
  "mem_read src off n = (if off + n \<le> length src then Some (take n (drop off src)) else None)"

subsection \<open>Sequencing of fallible steps\<close>

text \<open>
  \<open>err_bind r k\<close> continues with \<open>k\<close> when the step \<open>r\<close> succeeded and leaves the
  function with the error of \<open>r\<close> otherwise (\<open>goto end\<close>, \<open>return 0\<close>);
  \<open>of_option e x\<close> fails with \<open>e\<close> when \<open>x\<close> is \<open>None\<close>.
\<close>

definition err_bind :: "error + 'a \<Rightarrow> ('a \<Rightarrow> error + 'b) \<Rightarrow> error + 'b" where
  "err_bind r k = (case r of Inl e \<Rightarrow> Inl e | Inr x \<Rightarrow> k x)"

definition of_option :: "error \<Rightarrow> 'a option \<Rightarrow> error + 'a" where
  "of_option e x = (case x of None \<Rightarrow> Inl e | Some y \<Rightarrow> Inr y)"

subsection \<open>Public key encoding\<close>

text \<open>
  \<open>ossl_ml_dsa_i2d_pubkey key out\<close>: the flag says whether \<open>out\<close> is not \<open>NULL\<close>.
  The result is the returned length and, when a buffer was asked for, its content.
  Allocation is taken to succeed.
\<close>

definition ossl_ml_dsa_i2d_pubkey :: "ML_DSA_KEY \<Rightarrow> bool \<Rightarrow> error + (nat \<times> byte list option)" where
  "ossl_ml_dsa_i2d_pubkey key out =
     (let params = key_params key in
      case key_pub key of
        None \<Rightarrow> Inl PROV_R_NOT_A_PUBLIC_KEY
      | Some pk \<Rightarrow>
          if out then
            err_bind (of_option MEMORY_FAULT (mem_read pk 0 (pk_len params))) (\<lambda>copy.
            Inr (pk_len params, Some copy))
          else Inr (pk_len params, None))"

subsection \<open>C strings\<close>

text \<open>
  A \<open>string\<close> stands for the characters a \<open>char *\<close> points to; it ends at its
  first NUL character or, when it holds none, at the end of the list.
\<close>

definition NUL :: char where
  "NUL = CHR 0x00"

definition char_at :: "string \<Rightarrow> char" where
  "char_at s = (case s of [] \<Rightarrow> NUL | c # cs \<Rightarrow> c)"

definition strspn :: "string \<Rightarrow> string \<Rightarrow> nat" where
  "strspn s accept = length (takeWhile (\<lambda>c. c \<noteq> NUL \<and> c \<in> set accept) s)"

definition strcspn :: "string \<Rightarrow> string \<Rightarrow> nat" where
  "strcspn s reject = length (takeWhile (\<lambda>c. c \<noteq> NUL \<and> c \<notin> set reject) s)"

text \<open>
  Modelled from the spec: \<open>ossl_tolower\<close> and \<open>OPENSSL_strncasecmp\<close> (crypto/ctype.c,
  crypto/o\_str.c) are not among the sources. The specification says that format names
  are compared case-insensitively; the comparison is the one of \<open>strncasecmp\<close>: at most
  \<open>n\<close> characters, ASCII letters folded to lower case, stopping after a NUL.
\<close>

definition ossl_tolower :: "char \<Rightarrow> char" where
  "ossl_tolower c =
     (let n = (of_char c :: nat) in if 65 \<le> n \<and> n \<le> 90 then char_of (n + 32) else c)"

fun OPENSSL_strncasecmp :: "string \<Rightarrow> string \<Rightarrow> nat \<Rightarrow> int" where
  "OPENSSL_strncasecmp s1 s2 0 = 0"
| "OPENSSL_strncasecmp s1 s2 (Suc n) =
     (let t = int (of_char (ossl_tolower (char_at s1))) - int (of_char (ossl_tolower (char_at s2)))
      in if t \<noteq> 0 then t
         else if char_at s1 = NUL then 0
         else OPENSSL_strncasecmp (tl s1) (tl s2) n)"

subsection \<open>The preference resolver\<close>

definition pref_cmp :: "ML_DSA_PKCS8_FMT_PREF \<Rightarrow> ML_DSA_PKCS8_FMT_PREF \<Rightarrow> int" where
  "pref_cmp a b =
     (if pref a > 0 \<and> pref b > 0 then pref a - pref b
      else pref b - pref a)"

text \<open>
  \<open>qsort\<close> belongs to the C library: it permutes the array into ascending order of the
  comparison function, by an algorithm that is not specified. The model is an insertion
  sort; \<open>qsort_result\<close> is the contract itself.
\<close>

fun qsort_insert :: "('a \<Rightarrow> 'a \<Rightarrow> int) \<Rightarrow> 'a \<Rightarrow> 'a list \<Rightarrow> 'a list" where
  "qsort_insert cmp x [] = [x]"
| "qsort_insert cmp x (y # ys) =
     (if cmp x y \<le> 0 then x # y # ys else y # qsort_insert cmp x ys)"

definition qsort :: "('a \<Rightarrow> 'a \<Rightarrow> int) \<Rightarrow> 'a list \<Rightarrow> 'a list" where
  "qsort cmp xs = foldr (qsort_insert cmp) xs []"

definition qsort_result :: "('a \<Rightarrow> 'a \<Rightarrow> int) \<Rightarrow> 'a list \<Rightarrow> 'a list \<Rightarrow> bool" where
  "qsort_result cmp xs ys = (mset ys = mset xs \<and> sorted_wrt (\<lambda>a b. cmp a b \<le> 0) ys)"

definition sep :: string where
  "sep = [CHR 0x09, CHR '' '', CHR '','']"

text \<open>
  The inner \<open>for\<close> loop of \<open>vp8_order\<close>: the first slot that is not yet selected and
  whose name compares equal to the \<open>n\<close> characters at \<open>fmt\<close> gets the next preference.
\<close>

fun vp8_select :: "ML_DSA_PKCS8_FMT_PREF list \<Rightarrow> string \<Rightarrow> nat \<Rightarrow> int
    \<Rightarrow> ML_DSA_PKCS8_FMT_PREF list \<times> int" where
  "vp8_select [] fmt0 n cnt = ([], cnt)"
| "vp8_select (r # rs) fmt0 n cnt =
     (if pref r > 0 \<or> OPENSSL_strncasecmp (p8_name (fmt r)) fmt0 n \<noteq> 0
      then (case vp8_select rs fmt0 n cnt of (rs', cnt') \<Rightarrow> (r # rs', cnt'))
      else (r\<lparr>pref := cnt + 1\<rparr> # rs, cnt + 1))"

text \<open>The \<open>do ... while (count < NUM_PKCS8_FORMATS)\<close> loop over the configuration string.\<close>

function vp8_tokens :: "string \<Rightarrow> ML_DSA_PKCS8_FMT_PREF list \<Rightarrow> int
    \<Rightarrow> ML_DSA_PKCS8_FMT_PREF list \<times> int" where
  "vp8_tokens fmt0 ret cnt =
     (let fmt1 = drop (strspn fmt0 sep) fmt0 in
      if char_at fmt1 = NUL then (ret, cnt)
      else
        let n = strcspn fmt1 sep in
        case vp8_select ret fmt1 n cnt of
          (ret', cnt') \<Rightarrow>
            if cnt' < int NUM_PKCS8_FORMATS then vp8_tokens (drop n fmt1) ret' cnt'
            else (ret', cnt'))"
  by pat_completeness auto
termination
proof (relation "measure (\<lambda>(fmt0, ret, cnt). length fmt0)")
  show "wf (measure (\<lambda>(fmt0, ret, cnt). length fmt0))"
    by simp
next
  fix fmt0 :: string and ret :: "ML_DSA_PKCS8_FMT_PREF list" and cnt :: int
    and fmt1 n and sel :: "ML_DSA_PKCS8_FMT_PREF list \<times> int" and ret' cnt'
  assume fmt1: "fmt1 = drop (strspn fmt0 sep) fmt0"
    and more: "char_at fmt1 \<noteq> NUL"
    and n: "n = strcspn fmt1 sep"
  from more obtain c cs where cons: "fmt1 = c # cs" and c: "c \<noteq> NUL"
    by (auto simp: char_at_def split: list.splits)
  have dw: "fmt1 = dropWhile (\<lambda>c. c \<noteq> NUL \<and> c \<in> set sep) fmt0"
    using fmt1 by (simp add: strspn_def dropWhile_eq_drop)
  have "dropWhile (\<lambda>c. c \<noteq> NUL \<and> c \<in> set sep) fmt0 \<noteq> []"
    by (metis cons dw list.distinct(1))
  then have "\<not> (hd fmt1 \<noteq> NUL \<and> hd fmt1 \<in> set sep)"
    unfolding dw by (rule hd_dropWhile)
  with cons c have "0 < n"
    by (simp add: n strcspn_def)
  moreover have "length fmt1 \<le> length fmt0"
    by (simp add: fmt1)
  moreover have "0 < length fmt1"
    by (simp add: cons)
  ultimately have "length fmt1 - n < length fmt0"
    by arith
  then have "length (drop n fmt1) < length fmt0"
    by simp
  then show "((drop n fmt1, ret', cnt'), (fmt0, ret, cnt)) \<in> measure (\<lambda>(fmt0, ret, cnt). length fmt0)"
    by simp
qed

declare vp8_tokens.simps [simp del]

text \<open>
  \<open>vp8_order p8fmt formats\<close>: the enabled formats in order of preference, that is the
  array up to its first \<open>NULL\<close> entry. The algorithm name and the direction are used in
  the error message only.
\<close>

definition vp8_order :: "ML_DSA_PKCS8_FMT list \<Rightarrow> string option \<Rightarrow> error + ML_DSA_PKCS8_FMT list" where
  "vp8_order table formats =
     (let ret = map (\<lambda>f. \<lparr>fmt = f, pref = 0\<rparr>) table in
      case formats of
        None \<Rightarrow> Inr (map fmt ret)
      | Some s \<Rightarrow>
          (case vp8_tokens s ret 0 of
             (ret', cnt) \<Rightarrow>
               if cnt = 0 then Inl PROV_R_ML_DSA_NO_FORMAT
               else Inr (map fmt (take (nat cnt) (qsort pref_cmp ret')))))"

subsection \<open>Byte order\<close>

text \<open>
  \<open>OPENSSL_load_u32_be\<close> and its siblings (openssl/byteorder.h) read and write
  big-endian words; the caller advances its cursor by the width. A read that is not
  inside the buffer gives \<open>None\<close>.
\<close>

definition load_u32_be :: "byte list \<Rightarrow> int \<Rightarrow> 32 word option" where
  "load_u32_be buf pos =
     (if 0 \<le> pos \<and> nat pos + 4 \<le> length buf then
        Some (push_bit 24 (ucast (buf ! nat pos)) OR push_bit 16 (ucast (buf ! (nat pos + 1)))
              OR push_bit 8 (ucast (buf ! (nat pos + 2))) OR ucast (buf ! (nat pos + 3)))
      else None)"

definition load_u16_be :: "byte list \<Rightarrow> int \<Rightarrow> 16 word option" where
  "load_u16_be buf pos =
     (if 0 \<le> pos \<and> nat pos + 2 \<le> length buf then
        Some (push_bit 8 (ucast (buf ! nat pos)) OR ucast (buf ! (nat pos + 1)))
      else None)"

definition store_u32_be :: "32 word \<Rightarrow> byte list" where
  "store_u32_be v = [ucast (drop_bit 24 v), ucast (drop_bit 16 v), ucast (drop_bit 8 v), ucast v]"

definition store_u16_be :: "16 word \<Rightarrow> byte list" where
  "store_u16_be v = [ucast (drop_bit 8 v), ucast v]"

subsection \<open>Private key decoding\<close>

text \<open>
  What the PKCS\#8 layer (\<open>d2i_PKCS8_PRIV_KEY_INFO\<close>, \<open>PKCS8_pkey_get0\<close>,
  \<open>X509_ALGOR_get0\<close>) hands over: the key type of the algorithm identifier, whether
  its parameters are absent, and the private key octets \<open>buf\<close> of length \<open>len\<close>.
\<close>

record PKCS8_PRIV_KEY_INFO =
  pkey_alg :: evp_type
  pkey_ptype_undef :: bool
  pkey_buf :: "byte list"

text \<open>The settings the provider context holds for ML-DSA keys.\<close>

record PROV_CTX =
  input_formats :: "string option"
  output_formats :: "string option"
  retain_seed :: bool
  prefer_seed :: bool

text \<open>The arguments \<open>ossl_ml_dsa_set_prekey\<close> stores in the new key.\<close>

record ML_DSA_PREKEY =
  prekey_prefer :: bool
  prekey_retain :: bool
  prekey_seed :: "byte list option"
  prekey_priv :: "byte list option"

text \<open>
  The loop that finds the matching slot: \<open>pos\<close> is the cursor after the leading word
  was loaded, as an offset into \<open>buf\<close>; the accepted slot moves it back by \<open>p8_shift\<close>.
\<close>

fun d2i_find_slot :: "nat \<Rightarrow> 32 word \<Rightarrow> int \<Rightarrow> ML_DSA_PKCS8_FMT list
    \<Rightarrow> (ML_DSA_PKCS8_FMT \<times> int) option" where
  "d2i_find_slot len magic pos [] = None"
| "d2i_find_slot len magic pos (f # slots) =
     (if len \<noteq> p8_bytes f then d2i_find_slot len magic pos slots
      else if p8_shift f = 4 \<or> drop_bit (p8_shift f * 8) magic = p8_magic f
      then Some (f, pos - int (p8_shift f))
      else d2i_find_slot len magic pos slots)"

definition d2i_seed :: "ML_DSA_PKCS8_FMT \<Rightarrow> byte list \<Rightarrow> int \<Rightarrow> error + int" where
  "d2i_seed f buf pos =
     (if seed_length f > 0 then
        (if pos + 2 = int (seed_offset f) then
           (case load_u16_be buf pos of
              None \<Rightarrow> Inl MEMORY_FAULT
            | Some m \<Rightarrow>
                if m \<noteq> seed_magic f then Inl NO_ERROR_RAISED
                else Inr (pos + 2 + int ML_DSA_SEED_BYTES))
         else if pos \<noteq> int (seed_offset f) then Inl NO_ERROR_RAISED
         else Inr (pos + int ML_DSA_SEED_BYTES))
      else Inr pos)"

definition d2i_priv :: "ML_DSA_PKCS8_FMT \<Rightarrow> ML_DSA_PARAMS \<Rightarrow> byte list \<Rightarrow> int \<Rightarrow> error + int" where
  "d2i_priv f v buf pos =
     (if priv_length f > 0 then
        (if pos + 4 = int (priv_offset f) then
           (case load_u32_be buf pos of
              None \<Rightarrow> Inl MEMORY_FAULT
            | Some m \<Rightarrow>
                if m \<noteq> priv_magic f then Inl NO_ERROR_RAISED
                else Inr (pos + 4 + int (sk_len v)))
         else if pos \<noteq> int (priv_offset f) then Inl NO_ERROR_RAISED
         else Inr (pos + int (sk_len v)))
      else Inr pos)"

definition d2i_pub :: "ML_DSA_PKCS8_FMT \<Rightarrow> ML_DSA_PARAMS \<Rightarrow> int \<Rightarrow> error + int" where
  "d2i_pub f v pos =
     (if pub_length f > 0 then
        (if pos \<noteq> int (pub_offset f) then Inl NO_ERROR_RAISED
         else Inr (pos + int (pk_len v)))
      else Inr pos)"

text \<open>A field handed to \<open>ossl_ml_dsa_set_prekey\<close>: \<open>NULL\<close>, or \<open>n\<close> bytes at an offset.\<close>

definition d2i_field :: "byte list \<Rightarrow> bool \<Rightarrow> nat \<Rightarrow> nat \<Rightarrow> error + byte list option" where
  "d2i_field buf present off n =
     (if present then
        (case mem_read buf off n of None \<Rightarrow> Inl MEMORY_FAULT | Some bs \<Rightarrow> Inr (Some bs))
      else Inr None)"

text \<open>
  The validation of the payload once the slot is found: the fields the format declares,
  left to right from the cursor, which must end at the end of the payload; then the
  seed and the private key are collected for \<open>ossl_ml_dsa_set_prekey\<close>.
\<close>

definition d2i_fields :: "ML_DSA_PKCS8_FMT \<Rightarrow> ML_DSA_PARAMS \<Rightarrow> byte list \<Rightarrow> int \<Rightarrow> PROV_CTX
    \<Rightarrow> error + ML_DSA_PREKEY" where
  "d2i_fields f v buf pos provctx =
     err_bind (d2i_seed f buf pos) (\<lambda>pos1.
     err_bind (d2i_priv f v buf pos1) (\<lambda>pos2.
     err_bind (d2i_pub f v pos2) (\<lambda>pos3.
     if pos3 \<noteq> int (length buf) then Inl NO_ERROR_RAISED else
     err_bind (d2i_field buf (seed_length f > 0) (seed_offset f) ML_DSA_SEED_BYTES) (\<lambda>seed.
     err_bind (d2i_field buf (priv_length f > 0) (priv_offset f) (sk_len v)) (\<lambda>priv.
     Inr \<lparr>prekey_prefer = prefer_seed provctx, prekey_retain = retain_seed provctx,
          prekey_seed = seed, prekey_priv = priv\<rparr>)))))"

text \<open>
  \<open>ossl_ml_dsa_d2i_PKCS8\<close>. The first argument is the parsed PKCS\#8 structure, \<open>None\<close>
  when \<open>d2i_PKCS8_PRIV_KEY_INFO\<close> fails. \<open>PKCS8_pkey_get0\<close>, the allocation of
  the key and \<open>ossl_ml_dsa_set_prekey\<close> on the fresh key are taken to succeed. The shift of the
  leading word by \<open>p8_shift * 8\<close> bits is evaluated for shifts other than 4 only.
\<close>

definition ossl_ml_dsa_d2i_PKCS8 ::
  "PKCS8_PRIV_KEY_INFO option \<Rightarrow> evp_type \<Rightarrow> PROV_CTX \<Rightarrow> error + ML_DSA_PREKEY" where
  "ossl_ml_dsa_d2i_PKCS8 p8in evp provctx =
     err_bind (of_option NO_ERROR_RAISED (ossl_ml_dsa_params_get evp)) (\<lambda>v.
     err_bind (of_option NO_ERROR_RAISED (ml_dsa_get_codec evp)) (\<lambda>codec.
     err_bind (of_option NO_ERROR_RAISED p8in) (\<lambda>p8inf.
     let buf = pkey_buf p8inf; len = length buf in
     if pkey_alg p8inf \<noteq> evp then Inl NO_ERROR_RAISED else
     err_bind (vp8_order (p8fmt codec) (input_formats provctx)) (\<lambda>vp8.
     if \<not> pkey_ptype_undef p8inf then Inl PROV_R_UNEXPECTED_KEY_PARAMETERS else
     if len < 4 then Inl NO_ERROR_RAISED else
     err_bind (of_option MEMORY_FAULT (load_u32_be buf 0)) (\<lambda>magic.
     err_bind (of_option PROV_R_ML_DSA_NO_FORMAT (d2i_find_slot len magic 4 vp8)) (\<lambda>(f, pos).
     if (seed_length f > 0 \<and> seed_length f \<noteq> ML_DSA_SEED_BYTES)
        \<or> (priv_length f > 0 \<and> priv_length f \<noteq> sk_len v)
        \<or> (pub_length f > 0 \<and> pub_length f \<noteq> pk_len v)
     then Inl PROV_R_ML_DSA_NO_FORMAT else
     d2i_fields f v buf pos provctx))))))"

subsection \<open>Private key encoding\<close>

text \<open>If we don't have a seed, skip seedful entries.\<close>

fun i2d_find_slot :: "bool \<Rightarrow> ML_DSA_PKCS8_FMT list \<Rightarrow> ML_DSA_PKCS8_FMT option" where
  "i2d_find_slot have_seed [] = None"
| "i2d_find_slot have_seed (f # slots) =
     (if have_seed \<or> seed_length f = 0 then Some f
      else i2d_find_slot have_seed slots)"

text \<open>
  The output buffer of \<open>len\<close> bytes is the list of the bytes written so far, so the
  cursor \<open>pos\<close> is \<open>buf + length buf\<close>. A write that would pass the end of the
  allocation is a \<open>MEMORY_FAULT\<close>.
\<close>

definition i2d_put :: "nat \<Rightarrow> byte list \<Rightarrow> byte list \<Rightarrow> error + byte list" where
  "i2d_put len buf bytes =
     (if length buf + length bytes \<le> len then Inr (buf @ bytes) else Inl MEMORY_FAULT)"

definition i2d_copy :: "nat \<Rightarrow> byte list \<Rightarrow> byte list option \<Rightarrow> nat \<Rightarrow> error + byte list" where
  "i2d_copy len buf src n =
     err_bind (of_option MEMORY_FAULT src) (\<lambda>bs.
     err_bind (of_option MEMORY_FAULT (mem_read bs 0 n)) (\<lambda>copy.
     i2d_put len buf copy))"

definition i2d_header :: "ML_DSA_PKCS8_FMT \<Rightarrow> nat \<Rightarrow> error + byte list" where
  "i2d_header f len =
     (if p8_shift f = 0 then i2d_put len [] (store_u32_be (p8_magic f))
      else if p8_shift f = 2 then i2d_put len [] (store_u16_be (ucast (p8_magic f)))
      else if p8_shift f = 4 then Inr []
      else Inl ERR_R_INTERNAL_ERROR)"

definition i2d_seed :: "ML_DSA_PKCS8_FMT \<Rightarrow> nat \<Rightarrow> byte list option \<Rightarrow> byte list \<Rightarrow> error + byte list" where
  "i2d_seed f len seed buf =
     (if seed_length f \<noteq> 0 then
        err_bind (if length buf + 2 = seed_offset f then i2d_put len buf (store_u16_be (seed_magic f))
                  else Inr buf) (\<lambda>buf'.
        if length buf' \<noteq> seed_offset f then Inl ERR_R_INTERNAL_ERROR
        else i2d_copy len buf' seed ML_DSA_SEED_BYTES)
      else Inr buf)"

definition i2d_priv :: "ML_DSA_PKCS8_FMT \<Rightarrow> ML_DSA_PARAMS \<Rightarrow> nat \<Rightarrow> byte list option \<Rightarrow> byte list
    \<Rightarrow> error + byte list" where
  "i2d_priv f params len sk buf =
     (if priv_length f \<noteq> 0 then
        err_bind (if length buf + 4 = priv_offset f then i2d_put len buf (store_u32_be (priv_magic f))
                  else Inr buf) (\<lambda>buf'.
        if length buf' \<noteq> priv_offset f then Inl ERR_R_INTERNAL_ERROR
        else i2d_copy len buf' sk (sk_len params))
      else Inr buf)"

definition i2d_pub :: "ML_DSA_PKCS8_FMT \<Rightarrow> ML_DSA_PARAMS \<Rightarrow> nat \<Rightarrow> byte list option \<Rightarrow> byte list
    \<Rightarrow> error + byte list" where
  "i2d_pub f params len pk buf =
     (if pub_length f \<noteq> 0 then
        (if length buf \<noteq> pub_offset f then Inl ERR_R_INTERNAL_ERROR
         else i2d_copy len buf pk (pk_len params))
      else Inr buf)"

text \<open>
  The serialisation of the selected format into the buffer of \<open>p8_bytes\<close> bytes: the
  outer header by \<open>p8_shift\<close>, then the seed, the private key and the public key that
  the format declares, and the final check that the cursor is at the end of the buffer.
\<close>

definition i2d_payload :: "ML_DSA_PKCS8_FMT \<Rightarrow> ML_DSA_PARAMS \<Rightarrow> byte list option \<Rightarrow> byte list option
    \<Rightarrow> byte list option \<Rightarrow> error + byte list" where
  "i2d_payload f params seed sk pk =
     (let len = p8_bytes f in
      err_bind (i2d_header f len) (\<lambda>buf0.
      err_bind (i2d_seed f len seed buf0) (\<lambda>buf1.
      err_bind (i2d_priv f params len sk buf1) (\<lambda>buf2.
      err_bind (i2d_pub f params len pk buf2) (\<lambda>buf3.
      if length buf3 = len then Inr buf3 else Inl NO_ERROR_RAISED)))))"

text \<open>
  \<open>ossl_ml_dsa_i2d_prvkey key out provctx\<close>: the flag says whether \<open>out\<close> is not
  \<open>NULL\<close>; the result is the returned length and, when asked for, the buffer.
  Allocation is taken to succeed.
\<close>

definition ossl_ml_dsa_i2d_prvkey ::
  "ML_DSA_KEY \<Rightarrow> bool \<Rightarrow> PROV_CTX \<Rightarrow> error + (nat \<times> byte list option)" where
  "ossl_ml_dsa_i2d_prvkey key out provctx =
     (let params = key_params key; seed = key_seed key; sk = key_priv key in
      err_bind (of_option NO_ERROR_RAISED (ml_dsa_get_codec (evp_type_of params))) (\<lambda>codec.
      if sk = None then Inl PROV_R_NOT_A_PRIVATE_KEY else
      err_bind (vp8_order (p8fmt codec) (output_formats provctx)) (\<lambda>vp8.
      err_bind (of_option PROV_R_ML_DSA_NO_FORMAT (i2d_find_slot (seed \<noteq> None) vp8)) (\<lambda>f.
      if (seed_length f > 0 \<and> seed_length f \<noteq> ML_DSA_SEED_BYTES)
         \<or> (priv_length f > 0 \<and> priv_length f \<noteq> sk_len params)
         \<or> (pub_length f > 0 \<and> pub_length f \<noteq> pk_len params)
      then Inl PROV_R_ML_DSA_NO_FORMAT else
      if \<not> out then Inr (p8_bytes f, None) else
      err_bind (i2d_payload f params seed sk (key_pub key)) (\<lambda>buf.
      Inr (p8_bytes f, Some buf))))))"

subsection \<open>The preference resolver as the specification words it\<close>

text \<open>
  A token matches a name when the name begins with the characters of the token,
  letter case ignored.
\<close>

definition name_matches :: "string \<Rightarrow> string \<Rightarrow> bool" where
  "name_matches tok name = prefix (map ossl_tolower tok) (map ossl_tolower name)"

text \<open>
  The tokens of a configuration string: the maximal runs of characters other than
  tab, space and comma, read one character at a time up to the end of the string;
  \<open>cur\<close> is the token being read, last character first.
\<close>

fun tokens_from :: "string \<Rightarrow> string \<Rightarrow> string list" where
  "tokens_from cur [] = (if cur = [] then [] else [rev cur])"
| "tokens_from cur (c # cs) =
     (if c = NUL then (if cur = [] then [] else [rev cur])
      else if c \<in> set sep then (if cur = [] then tokens_from [] cs else rev cur # tokens_from [] cs)
      else tokens_from (c # cur) cs)"

definition tokens :: "string \<Rightarrow> string list" where
  "tokens s = tokens_from [] s"

text \<open>
  A slot of the resolver's array can take a token when it has no preference yet and the
  name of its descriptor matches the token.
\<close>

definition selectable :: "string \<Rightarrow> ML_DSA_PKCS8_FMT_PREF \<Rightarrow> bool" where
  "selectable tok r = (pref r \<le> 0 \<and> name_matches tok (p8_name (fmt r)))"

text \<open>
  For each token, the first descriptor of the table that is not yet selected and whose
  name matches is appended to the selection; a token that finds none is ignored.
\<close>

definition spec_select :: "ML_DSA_PKCS8_FMT list \<Rightarrow> ML_DSA_PKCS8_FMT list \<Rightarrow> string
    \<Rightarrow> ML_DSA_PKCS8_FMT list" where
  "spec_select table sel tok =
     (case find (\<lambda>f. f \<notin> set sel \<and> name_matches tok (p8_name f)) table of
        None \<Rightarrow> sel
      | Some f \<Rightarrow> sel @ [f])"

definition resolve_spec :: "ML_DSA_PKCS8_FMT list \<Rightarrow> string \<Rightarrow> ML_DSA_PKCS8_FMT list" where
  "resolve_spec table config = foldl (spec_select table) [] (tokens config)"

text \<open>
  The descriptors of the table whose name is matched by some token of the configuration
  string, in table order, and the position of the first token that matches the name of
  a descriptor: the reading of the selection in which every matched descriptor is
  enabled, in the order of its first match.
\<close>

definition matched_descriptors :: "ML_DSA_PKCS8_FMT list \<Rightarrow> string \<Rightarrow> ML_DSA_PKCS8_FMT list" where
  "matched_descriptors table config =
     filter (\<lambda>f. list_ex (\<lambda>tok. name_matches tok (p8_name f)) (tokens config)) table"

definition first_match :: "string \<Rightarrow> ML_DSA_PKCS8_FMT \<Rightarrow> nat" where
  "first_match config f =
     length (takeWhile (\<lambda>tok. \<not> name_matches tok (p8_name f)) (tokens config))"

text \<open>
  A descriptor fits a parameter set when each of the seed, private key and public key
  lengths it declares is the fixed size of the parameter set; a length of zero declares
  no field.
\<close>

definition fits :: "ML_DSA_PKCS8_FMT \<Rightarrow> ML_DSA_PARAMS \<Rightarrow> bool" where
  "fits f params =
     ((seed_length f = 0 \<or> seed_length f = ML_DSA_SEED_BYTES)
      \<and> (priv_length f = 0 \<or> priv_length f = sk_len params)
      \<and> (pub_length f = 0 \<or> pub_length f = pk_len params))"

text \<open>
  The length and leading-word check of the decoder: the payload length is the total
  length of the descriptor and, unless the descriptor has no header, the leading
  big-endian word shifted right by \<open>p8_shift\<close> bytes is its outer magic.
\<close>

definition accepts :: "ML_DSA_PKCS8_FMT \<Rightarrow> nat \<Rightarrow> 32 word \<Rightarrow> bool" where
  "accepts f len magic =
     (len = p8_bytes f \<and> (p8_shift f = 4 \<or> drop_bit (p8_shift f * 8) magic = p8_magic f))"

text \<open>
  The three layouts that carry a seed, as the tables write them: the seed and the
  private key under a four-byte outer header, each with its own header; the seed under
  a two-byte header; the bare seed.
\<close>

definition layout_seed_priv :: "ML_DSA_PKCS8_FMT \<Rightarrow> ML_DSA_PARAMS \<Rightarrow> bool" where
  "layout_seed_priv f v =
     (p8_shift f = 0 \<and> seed_offset f = 6 \<and> seed_length f = 32
      \<and> priv_offset f = 42 \<and> priv_length f = sk_len v \<and> sk_len v \<noteq> 0
      \<and> pub_length f = 0 \<and> p8_bytes f = 42 + sk_len v)"

definition layout_seed_only :: "ML_DSA_PKCS8_FMT \<Rightarrow> bool" where
  "layout_seed_only f =
     (p8_shift f = 2 \<and> drop_bit 16 (p8_magic f) = 0 \<and> seed_offset f = 2 \<and> seed_length f = 32
      \<and> priv_length f = 0 \<and> pub_length f = 0 \<and> p8_bytes f = 34)"

definition layout_bare_seed :: "ML_DSA_PKCS8_FMT \<Rightarrow> bool" where
  "layout_bare_seed f =
     (p8_shift f = 4 \<and> seed_offset f = 0 \<and> seed_length f = 32
      \<and> priv_length f = 0 \<and> pub_length f = 0 \<and> p8_bytes f = 32)"

text \<open>
  The preference the resolver has given to a descriptor once the descriptors \<open>sel\<close>
  are selected, in this order: its position in \<open>sel\<close> counted from 1, or 0.
\<close>

fun rank :: "'a list \<Rightarrow> 'a \<Rightarrow> int" where
  "rank [] f = 0"
| "rank (g # gs) f = (if f = g then 1 else if f \<in> set gs then 1 + rank gs f else 0)"

definition ranked :: "ML_DSA_PKCS8_FMT list \<Rightarrow> ML_DSA_PKCS8_FMT \<Rightarrow> ML_DSA_PKCS8_FMT_PREF" where
  "ranked sel f = \<lparr>fmt = f, pref = rank sel f\<rparr>"

section \<open>Theorems\<close>

subsection \<open>The preference resolver\<close>

subsubsection \<open>Comparison of names\<close>

lemma NUL_iff: "c = NUL \<longleftrightarrow> of_char c = (0::nat)"
proof -
  have "of_char NUL = (0::nat)" by (simp add: NUL_def)
  then have "of_char c = (0::nat) \<longleftrightarrow> (of_char c :: nat) = of_char NUL" by simp
  then show ?thesis by (simp only: of_char_eq_iff)
qed

lemma tolower_NUL: "ossl_tolower c = NUL \<longleftrightarrow> c = NUL"
  unfolding NUL_iff by (simp add: ossl_tolower_def Let_def)

lemma tolower_NUL' [simp]: "ossl_tolower NUL = NUL"
  by (simp add: tolower_NUL)

lemma tolower_NUL2: "NUL = ossl_tolower c \<longleftrightarrow> c = NUL"
  using tolower_NUL [of c] by auto

lemma strncasecmp_prefix:
  "NUL \<notin> set tok \<Longrightarrow>
     (OPENSSL_strncasecmp name (tok @ rest) (length tok) = 0) = name_matches tok name"
proof (induction tok arbitrary: name)
  case Nil
  then show ?case by (simp add: name_matches_def)
next
  case (Cons c tok)
  show ?case
  proof (cases name)
    case Nil
    with Cons.prems show ?thesis
      by (auto simp: name_matches_def char_at_def tolower_NUL tolower_NUL2)
  next
    case (Cons d ds)
    with Cons.prems Cons.IH [of ds] show ?thesis
      by (auto simp: name_matches_def char_at_def tolower_NUL tolower_NUL2 Let_def)
  qed
qed

subsubsection \<open>The tokens of a configuration string\<close>

lemma tokens_from_skip: "tokens_from [] s = tokens_from [] (drop (strspn s sep) s)"
  by (induction s) (auto simp: strspn_def)

lemma tokens_from_word:
  "tokens_from cur s = tokens_from (rev (take (strcspn s sep) s) @ cur) (drop (strcspn s sep) s)"
  by (induction s arbitrary: cur) (auto simp: strcspn_def)

lemma tokens_from_flush:
  assumes "cur \<noteq> []"
  shows "tokens_from cur (drop (strcspn s sep) s) = rev cur # tokens_from [] (drop (strcspn s sep) s)"
proof -
  let ?P = "\<lambda>c. c \<noteq> NUL \<and> c \<notin> set sep"
  have d: "drop (strcspn s sep) s = dropWhile ?P s"
    by (simp add: strcspn_def dropWhile_eq_drop)
  show ?thesis
  proof (cases "dropWhile ?P s")
    case Nil
    show ?thesis unfolding d Nil using assms by simp
  next
    case (Cons c cs)
    then have "dropWhile ?P s \<noteq> []" by (simp only: list.distinct not_False_eq_True)
    then have "\<not> ?P (hd (dropWhile ?P s))" by (rule hd_dropWhile)
    with Cons have "c = NUL \<or> c \<in> set sep" by auto
    then show ?thesis unfolding d Cons using assms by auto
  qed
qed

lemma tokens_done:
  assumes "char_at (drop (strspn s sep) s) = NUL"
  shows "tokens s = []"
proof -
  have "tokens s = tokens_from [] (drop (strspn s sep) s)"
    unfolding tokens_def by (rule tokens_from_skip)
  also have "\<dots> = []"
    using assms by (cases "drop (strspn s sep) s") (auto simp: char_at_def)
  finally show ?thesis .
qed

lemma token_nonempty:
  assumes "char_at (drop (strspn s sep) s) \<noteq> NUL"
  shows "0 < strcspn (drop (strspn s sep) s) sep"
proof -
  let ?P = "\<lambda>c. c \<noteq> NUL \<and> c \<in> set sep"
  let ?s1 = "drop (strspn s sep) s"
  have d: "?s1 = dropWhile ?P s"
    by (simp add: strspn_def dropWhile_eq_drop)
  from assms obtain c cs where cons: "?s1 = c # cs" and c: "c \<noteq> NUL"
    by (auto simp: char_at_def split: list.splits)
  have "dropWhile ?P s = c # cs" using cons d by (simp only:)
  then have "dropWhile ?P s \<noteq> []" by (simp only: list.distinct not_False_eq_True)
  then have "\<not> ?P (hd (dropWhile ?P s))" by (rule hd_dropWhile)
  moreover have "hd (dropWhile ?P s) = c" using cons d by (simp only: list.sel)
  ultimately have "c \<notin> set sep" using c by simp
  then show ?thesis using c by (simp add: cons strcspn_def)
qed

lemma token_no_NUL: "NUL \<notin> set (take (strcspn s sep) s)"
proof -
  have "take (strcspn s sep) s = takeWhile (\<lambda>c. c \<noteq> NUL \<and> c \<notin> set sep) s"
    unfolding strcspn_def by (rule takeWhile_eq_take [symmetric])
  then show ?thesis by (auto dest: set_takeWhileD)
qed

lemma strcspn_le: "strcspn s sep \<le> length s"
  by (simp add: strcspn_def length_takeWhile_le)

lemma tokens_step:
  assumes "char_at (drop (strspn s sep) s) \<noteq> NUL"
  shows "tokens s = take (strcspn (drop (strspn s sep) s) sep) (drop (strspn s sep) s)
           # tokens (drop (strcspn (drop (strspn s sep) s) sep) (drop (strspn s sep) s))"
proof -
  let ?s1 = "drop (strspn s sep) s"
  let ?n = "strcspn ?s1 sep"
  have pos: "0 < ?n" using assms by (rule token_nonempty)
  have le: "?n \<le> length ?s1" by (rule strcspn_le)
  have ne: "rev (take ?n ?s1) \<noteq> []" using pos le by auto
  have "tokens s = tokens_from [] ?s1"
    unfolding tokens_def by (rule tokens_from_skip)
  also have "\<dots> = tokens_from (rev (take ?n ?s1) @ []) (drop ?n ?s1)"
    by (rule tokens_from_word)
  also have "\<dots> = rev (rev (take ?n ?s1)) # tokens_from [] (drop ?n ?s1)"
    using tokens_from_flush [OF ne, of ?s1] by simp
  finally show ?thesis by (simp add: tokens_def)
qed

subsubsection \<open>Preferences as ranks\<close>

lemma rank_pos: "0 < rank sel f \<longleftrightarrow> f \<in> set sel"
  by (induction sel) auto

lemma rank_nonneg: "0 \<le> rank sel f"
  by (induction sel) auto

lemma rank_le: "rank sel f \<le> int (length sel)"
  by (induction sel) auto

lemma rank_notin: "f \<notin> set sel \<Longrightarrow> rank sel f = 0"
  by (induction sel) auto

lemma rank_snoc:
  "f \<notin> set sel \<Longrightarrow> rank (sel @ [f]) g = (if g = f then int (length sel) + 1 else rank sel g)"
  by (induction sel) auto

lemma rank_nth: "distinct sel \<Longrightarrow> j < length sel \<Longrightarrow> rank sel (sel ! j) = int j + 1"
proof (induction sel arbitrary: j)
  case Nil
  then show ?case by simp
next
  case (Cons g gs)
  then show ?case by (cases j) auto
qed

lemma rank_inj: "f \<in> set sel \<Longrightarrow> rank sel f = rank sel g \<Longrightarrow> f = g"
proof (induction sel)
  case Nil
  then show ?case by simp
next
  case (Cons h hs)
  then show ?case
    using rank_pos [of hs f] rank_pos [of hs g] by (auto split: if_splits)
qed

subsubsection \<open>One token\<close>

lemma vp8_select_ranked:
  assumes "NUL \<notin> set tok" and "distinct xs"
  shows "vp8_select (map (ranked sel) xs) (tok @ rest) (length tok) c =
     (case find (\<lambda>f. f \<notin> set sel \<and> name_matches tok (p8_name f)) xs of
        None \<Rightarrow> (map (ranked sel) xs, c)
      | Some f \<Rightarrow> (map (\<lambda>g. if g = f then \<lparr>fmt = f, pref = c + 1\<rparr> else ranked sel g) xs, c + 1))"
  using assms(2)
proof (induction xs)
  case Nil
  then show ?case by simp
next
  case (Cons x xs)
  show ?case
  proof (cases "x \<notin> set sel \<and> name_matches tok (p8_name x)")
    case True
    then have "\<not> (pref (ranked sel x) > 0 \<or> OPENSSL_strncasecmp (p8_name (fmt (ranked sel x))) (tok @ rest) (length tok) \<noteq> 0)"
      using strncasecmp_prefix [OF assms(1), of "p8_name x" rest]
      by (simp add: ranked_def rank_pos)
    moreover have "map (\<lambda>g. if g = x then \<lparr>fmt = x, pref = c + 1\<rparr> else ranked sel g) xs = map (ranked sel) xs"
      using Cons.prems by (intro map_cong) auto
    ultimately show ?thesis using True by (simp add: ranked_def)
  next
    case False
    then have sk: "pref (ranked sel x) > 0 \<or> OPENSSL_strncasecmp (p8_name (fmt (ranked sel x))) (tok @ rest) (length tok) \<noteq> 0"
      using strncasecmp_prefix [OF assms(1), of "p8_name x" rest]
      by (auto simp add: ranked_def rank_pos)
    have "distinct xs" using Cons.prems by simp
    note IH = Cons.IH [OF this]
    show ?thesis
    proof (cases "find (\<lambda>f. f \<notin> set sel \<and> name_matches tok (p8_name f)) xs")
      case None
      then show ?thesis using sk False IH by auto
    next
      case (Some f)
      then have "f \<in> set xs" by (auto simp: find_Some_iff)
      then have "x \<noteq> f" using Cons.prems by auto
      then show ?thesis using sk False IH Some by auto
    qed
  qed
qed

lemma ranked_snoc:
  "f \<notin> set sel \<Longrightarrow> ranked (sel @ [f]) g = (if g = f then \<lparr>fmt = f, pref = int (length sel) + 1\<rparr> else ranked sel g)"
  by (simp add: ranked_def rank_snoc)

lemma vp8_select_spec:
  assumes "NUL \<notin> set tok" and "distinct table"
  shows "vp8_select (map (ranked sel) table) (tok @ rest) (length tok) (int (length sel)) =
     (map (ranked (spec_select table sel tok)) table, int (length (spec_select table sel tok)))"
proof (cases "find (\<lambda>f. f \<notin> set sel \<and> name_matches tok (p8_name f)) table")
  case None
  then show ?thesis
    using vp8_select_ranked [OF assms, of sel rest "int (length sel)"]
    by (simp add: spec_select_def)
next
  case (Some f)
  then have "f \<notin> set sel" by (auto simp: find_Some_iff)
  then show ?thesis
    using vp8_select_ranked [OF assms, of sel rest "int (length sel)"] Some
    by (simp add: spec_select_def ranked_snoc)
qed

lemma spec_select_inv:
  assumes "distinct sel" and "set sel \<subseteq> set table"
  shows "distinct (spec_select table sel tok) \<and> set (spec_select table sel tok) \<subseteq> set table"
proof (cases "find (\<lambda>f. f \<notin> set sel \<and> name_matches tok (p8_name f)) table")
  case None
  then show ?thesis using assms by (simp add: spec_select_def)
next
  case (Some f)
  then have "f \<notin> set sel" "f \<in> set table" by (auto simp: find_Some_iff)
  then show ?thesis using assms Some by (simp add: spec_select_def)
qed

lemma foldl_spec_select_inv:
  assumes "distinct sel" and "set sel \<subseteq> set table"
  shows "distinct (foldl (spec_select table) sel toks) \<and> set (foldl (spec_select table) sel toks) \<subseteq> set table"
  using assms
proof (induction toks arbitrary: sel)
  case Nil
  then show ?case by simp
next
  case (Cons t ts)
  then show ?case using spec_select_inv [of sel table t] by simp
qed

lemma spec_select_full:
  assumes "set table \<subseteq> set sel"
  shows "spec_select table sel tok = sel"
proof -
  have "find (\<lambda>f. f \<notin> set sel \<and> name_matches tok (p8_name f)) table = None"
    using assms by (auto simp: find_None_iff)
  then show ?thesis by (simp add: spec_select_def)
qed

lemma foldl_spec_select_full:
  "set table \<subseteq> set sel \<Longrightarrow> foldl (spec_select table) sel toks = sel"
  by (induction toks) (simp_all add: spec_select_full)

lemma full_selection:
  assumes "distinct sel" and "set sel \<subseteq> set table" and "length table \<le> length sel"
  shows "set table \<subseteq> set sel"
proof -
  have "card (set table) \<le> length table" by (rule card_length)
  also have "\<dots> \<le> card (set sel)" using assms(1,3) by (simp add: distinct_card)
  finally have "card (set table) \<le> card (set sel)" .
  then have "set sel = set table"
    using assms(2) by (intro card_seteq) auto
  then show ?thesis by simp
qed

lemma vp8_tokens_stop:
  "char_at (drop (strspn s sep) s) = NUL \<Longrightarrow> vp8_tokens s ret cnt = (ret, cnt)"
  by (subst vp8_tokens.simps) (simp add: Let_def)

lemma vp8_tokens_step:
  assumes "char_at (drop (strspn s sep) s) \<noteq> NUL"
    and "vp8_select ret (drop (strspn s sep) s) (strcspn (drop (strspn s sep) s) sep) cnt = (ret', cnt')"
  shows "vp8_tokens s ret cnt =
     (if cnt' < int NUM_PKCS8_FORMATS
      then vp8_tokens (drop (strcspn (drop (strspn s sep) s) sep) (drop (strspn s sep) s)) ret' cnt'
      else (ret', cnt'))"
  using assms by (subst vp8_tokens.simps) (simp only: Let_def if_False prod.case)

lemma vp8_tokens_spec:
  assumes "distinct table" and "length table = NUM_PKCS8_FORMATS"
  shows "distinct sel \<Longrightarrow> set sel \<subseteq> set table \<Longrightarrow> ret = map (ranked sel) table \<Longrightarrow> cnt = int (length sel) \<Longrightarrow>
    vp8_tokens s ret cnt =
      (map (ranked (foldl (spec_select table) sel (tokens s))) table,
       int (length (foldl (spec_select table) sel (tokens s))))"
proof (induction s ret cnt arbitrary: sel rule: vp8_tokens.induct)
  case (1 fmt0 ret cnt)
  let ?fmt1 = "drop (strspn fmt0 sep) fmt0"
  let ?n = "strcspn ?fmt1 sep"
  show ?case
  proof (cases "char_at ?fmt1 = NUL")
    case True
    then show ?thesis
      using "1.prems"(3,4) by (simp add: vp8_tokens_stop tokens_done)
  next
    case False
    let ?tok = "take ?n ?fmt1"
    let ?sel' = "spec_select table sel ?tok"
    have toks: "tokens fmt0 = ?tok # tokens (drop ?n ?fmt1)"
      using False by (rule tokens_step)
    have nn: "NUL \<notin> set ?tok" by (rule token_no_NUL)
    have len: "length ?tok = ?n" using strcspn_le [of ?fmt1] by simp
    have "vp8_select (map (ranked sel) table) (?tok @ drop ?n ?fmt1) (length ?tok) (int (length sel))
        = (map (ranked ?sel') table, int (length ?sel'))"
      using nn assms(1) by (rule vp8_select_spec)
    then have sel: "vp8_select ret ?fmt1 ?n cnt = (map (ranked ?sel') table, int (length ?sel'))"
      unfolding append_take_drop_id len "1.prems"(3,4) .
    note step = vp8_tokens_step [OF False sel]
    have inv: "distinct ?sel'" "set ?sel' \<subseteq> set table"
      using spec_select_inv [OF "1.prems"(1,2)] by auto
    have fold: "foldl (spec_select table) sel (tokens fmt0)
        = foldl (spec_select table) ?sel' (tokens (drop ?n ?fmt1))"
      by (simp only: toks foldl_Cons)
    show ?thesis
    proof (cases "int (length ?sel') < int NUM_PKCS8_FORMATS")
      case True
      have "vp8_tokens (drop ?n ?fmt1) (map (ranked ?sel') table) (int (length ?sel')) =
        (map (ranked (foldl (spec_select table) ?sel' (tokens (drop ?n ?fmt1)))) table,
         int (length (foldl (spec_select table) ?sel' (tokens (drop ?n ?fmt1)))))"
        using refl [of ?fmt1] False refl [of ?n] sel [symmetric] True inv refl refl
        by (rule "1.IH")
      then show ?thesis
        unfolding step fold using True by (simp only: if_True)
    next
      case stop: False
      then have "length table \<le> length ?sel'" using assms(2) by simp
      with inv have "set table \<subseteq> set ?sel'"
        by (rule full_selection)
      then have "foldl (spec_select table) ?sel' (tokens (drop ?n ?fmt1)) = ?sel'"
        by (rule foldl_spec_select_full)
      then show ?thesis
        unfolding step fold using stop by (simp only: if_False)
    qed
  qed
qed

subsubsection \<open>The comparison and the sort\<close>

lemma pref_cmp_total:
  "0 \<le> pref a \<Longrightarrow> 0 \<le> pref b \<Longrightarrow> \<not> pref_cmp a b \<le> 0 \<Longrightarrow> pref_cmp b a \<le> 0"
  by (auto simp: pref_cmp_def split: if_splits)

lemma pref_cmp_trans:
  "0 \<le> pref a \<Longrightarrow> 0 \<le> pref b \<Longrightarrow> 0 \<le> pref c \<Longrightarrow>
     pref_cmp a b \<le> 0 \<Longrightarrow> pref_cmp b c \<le> 0 \<Longrightarrow> pref_cmp a c \<le> 0"
  by (auto simp: pref_cmp_def split: if_splits)

lemma set_qsort_insert: "set (qsort_insert cmp x ys) = insert x (set ys)"
  by (induction ys) auto

lemma mset_qsort_insert: "mset (qsort_insert cmp x ys) = add_mset x (mset ys)"
  by (induction ys) auto

lemma mset_qsort: "mset (qsort cmp xs) = mset xs"
  by (induction xs) (simp_all add: qsort_def mset_qsort_insert)

lemma sorted_qsort_insert:
  assumes "0 \<le> pref x" and "\<forall>y\<in>set ys. 0 \<le> pref y"
    and "sorted_wrt (\<lambda>a b. pref_cmp a b \<le> 0) ys"
  shows "sorted_wrt (\<lambda>a b. pref_cmp a b \<le> 0) (qsort_insert pref_cmp x ys)"
  using assms(2,3)
proof (induction ys)
  case Nil
  then show ?case by simp
next
  case (Cons y ys)
  show ?case
  proof (cases "pref_cmp x y \<le> 0")
    case True
    have "pref_cmp x z \<le> 0" if "z \<in> set ys" for z
    proof -
      have "pref_cmp y z \<le> 0" using Cons.prems(2) that by simp
      then show ?thesis
        using pref_cmp_trans [of x y z] assms(1) Cons.prems(1) that True by simp
    qed
    then show ?thesis using True Cons.prems(2) by simp
  next
    case False
    then have "pref_cmp y x \<le> 0"
      using pref_cmp_total [of x y] assms(1) Cons.prems(1) by simp
    then show ?thesis
      using False Cons by (auto simp: set_qsort_insert)
  qed
qed

lemma qsort_model_result:
  assumes "\<forall>r\<in>set xs. 0 \<le> pref r"
  shows "qsort_result pref_cmp xs (qsort pref_cmp xs)"
proof -
  have "sorted_wrt (\<lambda>a b. pref_cmp a b \<le> 0) (qsort pref_cmp xs)"
    using assms
  proof (induction xs)
    case Nil
    then show ?case by (simp add: qsort_def)
  next
    case (Cons x xs)
    have "\<forall>y\<in>set (qsort pref_cmp xs). 0 \<le> pref y"
      using Cons.prems mset_eq_setD [OF mset_qsort [of pref_cmp xs]] by simp
    then have "sorted_wrt (\<lambda>a b. pref_cmp a b \<le> 0) (qsort_insert pref_cmp x (qsort pref_cmp xs))"
      using Cons by (intro sorted_qsort_insert) auto
    then show ?case by (simp add: qsort_def)
  qed
  then show ?thesis by (simp add: qsort_result_def mset_qsort)
qed

subsubsection \<open>The sorted array\<close>

lemma key_mono_aux:
  fixes pa pb n :: int
  assumes "0 \<le> pa" "pa \<le> n" "0 \<le> pb" "pb \<le> n"
    and "(if pa > 0 \<and> pb > 0 then pa - pb else pb - pa) \<le> 0"
  shows "(if pa = 0 then n + 1 else pa) \<le> (if pb = 0 then n + 1 else pb)"
  using assms by (auto split: if_splits)

lemma pref_ranked [simp]: "pref (ranked sel f) = rank sel f"
  by (simp add: ranked_def)

lemma fmt_ranked [simp]: "fmt (ranked sel f) = f"
  by (simp add: ranked_def)

lemma sorted_array_prefix:
  assumes dt: "distinct table" and ds: "distinct sel" and sub: "set sel \<subseteq> set table"
    and res: "qsort_result pref_cmp (map (ranked sel) table) ys"
  shows "take (length sel) ys = map (ranked sel) sel"
proof -
  let ?n = "length sel"
  let ?ret = "map (ranked sel) table"
  define key where "key r = (if pref r = 0 then int ?n + 1 else pref r)" for r :: ML_DSA_PKCS8_FMT_PREF
  let ?rest = "filter (\<lambda>f. f \<notin> set sel) table"
  let ?zs = "map (ranked sel) sel @ map (ranked sel) ?rest"
  from res have ms: "mset ys = mset ?ret" and so: "sorted_wrt (\<lambda>a b. pref_cmp a b \<le> 0) ys"
    by (simp_all add: qsort_result_def)
  have set_ys: "set ys = set ?ret" using ms by (rule mset_eq_setD)
  have len_ys: "length ys = length table" using mset_eq_length [OF ms] by simp
  have ret_elem: "\<exists>f. r = ranked sel f" if "r \<in> set ys" for r
  proof -
    from that have "r \<in> ranked sel ` set table" unfolding set_ys by (simp only: set_map)
    then show ?thesis by (rule imageE) (rule exI)
  qed
  have bounds: "0 \<le> pref r \<and> pref r \<le> int ?n" if "r \<in> set ys" for r
  proof -
    from ret_elem [OF that] obtain f where "r = ranked sel f" ..
    then show ?thesis using rank_nonneg [of sel f] rank_le [of sel f] by simp
  qed
  \<comment> \<open>the array is sorted by key\<close>
  have "sorted_wrt (\<lambda>a b. key a \<le> key b) ys"
  proof (rule sorted_wrt_mono_rel [OF _ so])
    fix a b assume a: "a \<in> set ys" and b: "b \<in> set ys" and c: "pref_cmp a b \<le> 0"
    show "key a \<le> key b"
      unfolding key_def
      using bounds [OF a] bounds [OF b] c [unfolded pref_cmp_def]
      by (intro key_mono_aux) simp_all
  qed
  then have sk_ys: "sorted (map key ys)" by (simp only: sorted_map)
  \<comment> \<open>the canonical arrangement\<close>
  have "mset (filter (\<lambda>f. f \<in> set sel) table) = mset sel"
  proof -
    have "set (filter (\<lambda>f. f \<in> set sel) table) = set sel" using sub by auto
    moreover have "distinct (filter (\<lambda>f. f \<in> set sel) table)" using dt by simp
    ultimately show ?thesis
      using ds by (simp only: set_eq_iff_mset_eq_distinct)
  qed
  moreover have "mset table = mset (filter (\<lambda>f. f \<in> set sel) table) + mset ?rest"
    by (simp only: mset_filter multiset_partition [symmetric])
  ultimately have part: "mset table = mset sel + mset ?rest" by (simp only:)
  have "mset ?ret = image_mset (ranked sel) (mset table)" by (simp only: mset_map)
  also have "\<dots> = image_mset (ranked sel) (mset sel + mset ?rest)" by (simp only: part)
  also have "\<dots> = mset ?zs" by (simp only: image_mset_union mset_map mset_append)
  finally have mz: "mset ?ret = mset ?zs" .
  have "image_mset key (mset ys) = image_mset key (mset ?zs)" by (simp only: ms mz)
  then have ms2: "mset (map key ys) = mset (map key ?zs)" by (simp only: mset_map)
  have key_sel: "map key (map (ranked sel) sel) = map (\<lambda>j. int j + 1) [0..<?n]"
  proof (rule nth_equalityI)
    show "length (map key (map (ranked sel) sel)) = length (map (\<lambda>j. int j + 1) [0..<?n])" by simp
  next
    fix j assume "j < length (map key (map (ranked sel) sel))"
    then have j: "j < ?n" by simp
    then show "map key (map (ranked sel) sel) ! j = map (\<lambda>j. int j + 1) [0..<?n] ! j"
      using rank_nth [OF ds j] by (simp add: key_def)
  qed
  have key_rest: "map key (map (ranked sel) ?rest) = replicate (length ?rest) (int ?n + 1)"
  proof (rule nth_equalityI)
    show "length (map key (map (ranked sel) ?rest)) = length (replicate (length ?rest) (int ?n + 1))"
      by simp
  next
    fix j assume "j < length (map key (map (ranked sel) ?rest))"
    then have j: "j < length ?rest" by simp
    then have "?rest ! j \<in> set ?rest" by (rule nth_mem)
    then have "?rest ! j \<notin> set sel" by simp
    then have "rank sel (?rest ! j) = 0" by (rule rank_notin)
    then show "map key (map (ranked sel) ?rest) ! j = replicate (length ?rest) (int ?n + 1) ! j"
      using j by (simp add: key_def)
  qed
  have "sorted (map (\<lambda>j. int j + 1) [0..<?n])"
    by (simp add: sorted_map sorted_wrt_iff_nth_less)
  moreover have "\<forall>x\<in>set (map (\<lambda>j. int j + 1) [0..<?n]). x \<le> int ?n + 1" by auto
  ultimately have sk_zs: "sorted (map key ?zs)"
    unfolding map_append key_sel key_rest by (simp add: sorted_append)
  have "sort (map key ?zs) = map key ys" using ms2 sk_ys by (rule properties_for_sort)
  moreover have "sort (map key ?zs) = map key ?zs" using refl sk_zs by (rule properties_for_sort)
  ultimately have eq: "map key ys = map key ?zs" by (simp only:)
  have "?n = card (set sel)" using ds by (simp only: distinct_card)
  also have "\<dots> \<le> card (set table)" using sub by (rule card_mono [OF finite_set])
  also have "\<dots> = length table" using dt by (rule distinct_card)
  finally have le: "?n \<le> length ys" by (simp only: len_ys)
  have keys: "key (ys ! j) = int j + 1" if j: "j < ?n" for j
  proof -
    have "j < length ys" using j le by simp
    then have "key (ys ! j) = map key ys ! j" by simp
    also have "\<dots> = map key ?zs ! j" by (simp only: eq)
    also have "\<dots> = map (\<lambda>j. int j + 1) [0..<?n] ! j"
      unfolding map_append key_sel using j by (simp add: nth_append)
    finally show ?thesis using j by simp
  qed
  show ?thesis
  proof (rule nth_equalityI)
    show "length (take ?n ys) = length (map (ranked sel) sel)" using le by simp
  next
    fix j assume "j < length (take ?n ys)"
    then have j: "j < ?n" by simp
    then have "j < length ys" using le by simp
    then have "ys ! j \<in> set ys" by (rule nth_mem)
    from ret_elem [OF this] obtain f where f: "ys ! j = ranked sel f" ..
    have "key (ys ! j) = int j + 1" using keys j by simp
    then have "rank sel f = int j + 1"
      using j by (simp add: f key_def split: if_splits)
    then have r: "rank sel (sel ! j) = rank sel f" using rank_nth [OF ds j] by simp
    have "sel ! j \<in> set sel" using j by (rule nth_mem)
    then have "sel ! j = f" using r by (rule rank_inj)
    then show "take ?n ys ! j = map (ranked sel) sel ! j" using j f by simp
  qed
qed

lemma map_fmt_ranked: "map fmt (map (ranked sel) xs) = xs"
  by (induction xs) (simp_all add: ranked_def)

lemma init_ranked: "map (\<lambda>f. \<lparr>fmt = f, pref = 0\<rparr>) table = map (ranked []) table"
  by (simp add: ranked_def)

lemma vp8_tokens_resolve:
  assumes "distinct table" and "length table = NUM_PKCS8_FORMATS"
  shows "vp8_tokens s (map (\<lambda>f. \<lparr>fmt = f, pref = 0\<rparr>) table) 0 =
     (map (ranked (resolve_spec table s)) table, int (length (resolve_spec table s)))"
  unfolding resolve_spec_def init_ranked
  by (rule vp8_tokens_spec [OF assms]) simp_all

lemma resolve_spec_inv:
  "distinct (resolve_spec table s) \<and> set (resolve_spec table s) \<subseteq> set table"
  unfolding resolve_spec_def by (rule foldl_spec_select_inv) simp_all

lemma sorted_resolve:
  assumes "distinct table" and "qsort_result pref_cmp (map (ranked (resolve_spec table s)) table) ys"
  shows "map fmt (take (length (resolve_spec table s)) ys) = resolve_spec table s"
proof -
  have "take (length (resolve_spec table s)) ys = map (ranked (resolve_spec table s)) (resolve_spec table s)"
    using assms(1) resolve_spec_inv [of table s] assms(2)
    by (intro sorted_array_prefix) auto
  then show ?thesis by (simp only: map_fmt_ranked)
qed

lemma vp8_order_resolve:
  assumes "distinct table" and "length table = NUM_PKCS8_FORMATS"
  shows "vp8_order table (Some s) =
     (if resolve_spec table s = [] then Inl PROV_R_ML_DSA_NO_FORMAT else Inr (resolve_spec table s))"
proof -
  let ?sel = "resolve_spec table s"
  have "\<forall>r\<in>set (map (ranked ?sel) table). 0 \<le> pref r"
    by (simp add: ranked_def rank_nonneg)
  then have "qsort_result pref_cmp (map (ranked ?sel) table) (qsort pref_cmp (map (ranked ?sel) table))"
    by (rule qsort_model_result)
  then have "map fmt (take (length ?sel) (qsort pref_cmp (map (ranked ?sel) table))) = ?sel"
    using assms(1) by (intro sorted_resolve)
  then show ?thesis
    unfolding vp8_order_def Let_def vp8_tokens_resolve [OF assms]
    by simp
qed

lemma vp8_order_default: "vp8_order table None = Inr table"
  by (simp add: vp8_order_def comp_def)

lemma table_facts:
  assumes "ml_dsa_get_codec t = Some codec"
  shows "distinct (p8fmt codec)" and "length (p8fmt codec) = NUM_PKCS8_FORMATS"
  using assms
  by (auto simp: ml_dsa_get_codec_def ml_dsa_44_p8fmt_def ml_dsa_65_p8fmt_def ml_dsa_87_p8fmt_def
      mk_fmt_def NUM_PKCS8_FORMATS_def split: evp_type.splits)

subsubsection \<open>Selected descriptors\<close>




lemma spec_select_matched:
  assumes "f \<in> set (spec_select table sel tok)"
  shows "f \<in> set sel \<or> (f \<in> set table \<and> name_matches tok (p8_name f))"
proof (cases "find (\<lambda>f. f \<notin> set sel \<and> name_matches tok (p8_name f)) table")
  case None
  then show ?thesis using assms by (simp add: spec_select_def)
next
  case (Some g)
  then have "g \<in> set table \<and> name_matches tok (p8_name g)"
    by (auto simp: find_Some_iff)
  then show ?thesis using assms Some by (auto simp: spec_select_def)
qed

lemma foldl_spec_select_matched:
  "f \<in> set (foldl (spec_select table) sel toks) \<Longrightarrow>
     f \<in> set sel \<or> (f \<in> set table \<and> (\<exists>tok\<in>set toks. name_matches tok (p8_name f)))"
proof (induction toks arbitrary: sel)
  case Nil
  then show ?case by simp
next
  case (Cons t ts)
  from Cons.prems have "f \<in> set (foldl (spec_select table) (spec_select table sel t) ts)" by simp
  from Cons.IH [OF this] show ?case
  proof
    assume "f \<in> set (spec_select table sel t)"
    from spec_select_matched [OF this] show ?thesis by auto
  next
    assume "f \<in> set table \<and> (\<exists>tok\<in>set ts. name_matches tok (p8_name f))"
    then show ?thesis by auto
  qed
qed

lemma resolve_spec_matched:
  "f \<in> set (resolve_spec table s) \<Longrightarrow>
     f \<in> set table \<and> (\<exists>tok\<in>set (tokens s). name_matches tok (p8_name f))"
  unfolding resolve_spec_def using foldl_spec_select_matched [of f table "[]" "tokens s"] by simp

lemma vp8_select_prefix:
  assumes "NUL \<notin> set tok"
  shows "vp8_select ret (tok @ rest) (length tok) cnt =
     (case dropWhile (\<lambda>r. \<not> selectable tok r) ret of
        [] \<Rightarrow> (ret, cnt)
      | r # post \<Rightarrow>
          (takeWhile (\<lambda>r. \<not> selectable tok r) ret @ r\<lparr>pref := cnt + 1\<rparr> # post, cnt + 1))"
proof (induction ret)
  case Nil
  then show ?case by simp
next
  case (Cons x xs)
  have m: "(OPENSSL_strncasecmp (p8_name (fmt x)) (tok @ rest) (length tok) = 0)
      = name_matches tok (p8_name (fmt x))"
    using assms by (rule strncasecmp_prefix)
  show ?case
  proof (cases "selectable tok x")
    case True
    then have "\<not> (0 < pref x \<or> OPENSSL_strncasecmp (p8_name (fmt x)) (tok @ rest) (length tok) \<noteq> 0)"
      using m by (auto simp: selectable_def)
    then show ?thesis using True by simp
  next
    case False
    then have skip: "0 < pref x \<or> OPENSSL_strncasecmp (p8_name (fmt x)) (tok @ rest) (length tok) \<noteq> 0"
      using m by (auto simp: selectable_def)
    note IH = Cons.IH
    have dw: "dropWhile (\<lambda>r. \<not> selectable tok r) (x # xs) = dropWhile (\<lambda>r. \<not> selectable tok r) xs"
      and tw: "takeWhile (\<lambda>r. \<not> selectable tok r) (x # xs) = x # takeWhile (\<lambda>r. \<not> selectable tok r) xs"
      using False by simp_all
    have step: "vp8_select (x # xs) (tok @ rest) (length tok) cnt =
        (case vp8_select xs (tok @ rest) (length tok) cnt of (rs', cnt') \<Rightarrow> (x # rs', cnt'))"
      using skip by simp
    show ?thesis
    proof (cases "dropWhile (\<lambda>r. \<not> selectable tok r) xs")
      case Nil
      have "vp8_select xs (tok @ rest) (length tok) cnt = (xs, cnt)"
        unfolding IH Nil by (simp only: list.case)
      then show ?thesis
        unfolding step dw Nil by (simp only: list.case prod.case)
    next
      case (Cons r post)
      have "vp8_select xs (tok @ rest) (length tok) cnt =
          (takeWhile (\<lambda>r. \<not> selectable tok r) xs @ r\<lparr>pref := cnt + 1\<rparr> # post, cnt + 1)"
        unfolding IH Cons by (simp only: list.case)
      then show ?thesis
        unfolding step dw tw Cons by (simp only: list.case prod.case append_Cons)
    qed
  qed
qed

subsubsection \<open>Evaluation\<close>

lemmas table_defs = ml_dsa_44_p8fmt_def ml_dsa_65_p8fmt_def ml_dsa_87_p8fmt_def mk_fmt_def

lemmas resolve_eval = resolve_spec_def tokens_def sep_def NUL_def spec_select_def
  name_matches_def ossl_tolower_def char_of_eq_iff

lemma codec_cases:
  assumes "ml_dsa_get_codec t = Some codec"
  shows "p8fmt codec = ml_dsa_44_p8fmt \<or> p8fmt codec = ml_dsa_65_p8fmt \<or> p8fmt codec = ml_dsa_87_p8fmt"
  using assms by (cases t) (auto simp: ml_dsa_get_codec_def)

lemma codec_44:
  "ml_dsa_get_codec EVP_PKEY_ML_DSA_44 = Some \<lparr>spkifmt = ml_dsa_44_spkifmt, p8fmt = ml_dsa_44_p8fmt\<rparr>"
  by (simp add: ml_dsa_get_codec_def)

lemma spec_select_mono: "set sel \<subseteq> set (spec_select table sel tok)"
  unfolding spec_select_def by (auto split: option.split)

lemma foldl_spec_select_mono: "set sel \<subseteq> set (foldl (spec_select table) sel toks)"
proof (induction toks arbitrary: sel)
  case Nil show ?case by simp
next
  case (Cons tok toks)
  have "set sel \<subseteq> set (spec_select table sel tok)" by (rule spec_select_mono)
  also have "\<dots> \<subseteq> set (foldl (spec_select table) (spec_select table sel tok) toks)" by (rule Cons.IH)
  finally show ?case by simp
qed

lemma spec_select_first:
  assumes "f \<in> set table" and "name_matches tok (p8_name f)"
    and "f \<notin> set (spec_select table sel tok)"
  shows "\<exists>i j. i < j \<and> j < length table \<and> table ! j = f \<and> table ! i \<in> set (spec_select table sel tok)
            \<and> name_matches tok (p8_name (table ! i))"
proof -
  let ?P = "\<lambda>f. f \<notin> set sel \<and> name_matches tok (p8_name f)"
  from assms(3) spec_select_mono [of sel table tok] have ns: "f \<notin> set sel" by blast
  from assms(1) obtain j where j: "j < length table" "table ! j = f" by (auto simp add: in_set_conv_nth)
  show ?thesis
  proof (cases "find ?P table")
    case None
    then have "\<not> ?P f" using assms(1) by (simp add: find_None_iff)
    with ns assms(2) show ?thesis by simp
  next
    case (Some g)
    then obtain i where i: "i < length table" "?P (table ! i)" "g = table ! i" "\<forall>k<i. \<not> ?P (table ! k)"
      unfolding find_Some_iff by blast
    have s: "spec_select table sel tok = sel @ [g]" unfolding spec_select_def Some by simp
    from assms(3) s have "f \<noteq> g" by simp
    with i(3) j(2) have "i \<noteq> j" by auto
    moreover have "\<not> j < i" using i(4) j(2) ns assms(2) by auto
    ultimately have "i < j" by simp
    moreover have "table ! i \<in> set (spec_select table sel tok)" unfolding s i(3) by simp
    ultimately show ?thesis using j i(2) by blast
  qed
qed

lemma foldl_spec_select_first:
  assumes "tok \<in> set toks" and "f \<in> set table" and "name_matches tok (p8_name f)"
    and "f \<notin> set (foldl (spec_select table) sel toks)"
  shows "\<exists>i j. i < j \<and> j < length table \<and> table ! j = f
            \<and> table ! i \<in> set (foldl (spec_select table) sel toks)
            \<and> name_matches tok (p8_name (table ! i))"
  using assms
proof (induction toks arbitrary: sel)
  case Nil then show ?case by simp
next
  case (Cons t toks)
  show ?case
  proof (cases "tok \<in> set toks")
    case True
    with Cons.IH [of "spec_select table sel t"] Cons.prems show ?thesis by simp
  next
    case False
    with Cons.prems(1) have t: "t = tok" by simp
    let ?s = "spec_select table sel tok"
    have m: "set ?s \<subseteq> set (foldl (spec_select table) ?s toks)" by (rule foldl_spec_select_mono)
    with Cons.prems(4) have "f \<notin> set ?s" unfolding t by auto
    from spec_select_first [OF Cons.prems(2,3) this] m show ?thesis unfolding t by auto
  qed
qed

lemma resolve_spec_first:
  assumes "tok \<in> set (tokens config)" and "f \<in> set table" and "name_matches tok (p8_name f)"
    and "f \<notin> set (resolve_spec table config)"
  shows "\<exists>i j. i < j \<and> j < length table \<and> table ! j = f
            \<and> table ! i \<in> set (resolve_spec table config)
            \<and> name_matches tok (p8_name (table ! i))"
  using assms unfolding resolve_spec_def by (rule foldl_spec_select_first)

lemma spec_select_length: "length (spec_select table sel tok) \<le> Suc (length sel)"
  unfolding spec_select_def by (simp split: option.split)

lemma foldl_spec_select_length: "length (foldl (spec_select table) sel toks) \<le> length sel + length toks"
proof (induction toks arbitrary: sel)
  case Nil show ?case by simp
next
  case (Cons tok toks)
  from Cons.IH [of "spec_select table sel tok"] spec_select_length [of table sel tok]
  show ?case by simp
qed

lemma resolve_spec_length: "length (resolve_spec table config) \<le> length (tokens config)"
  unfolding resolve_spec_def using foldl_spec_select_length [of table "[]" "tokens config"] by simp

lemma c5_examples:
  "resolve_spec ml_dsa_44_p8fmt ''seed'' = [ml_dsa_44_p8fmt ! 0]"
  "matched_descriptors ml_dsa_44_p8fmt ''seed'' = [ml_dsa_44_p8fmt ! 0, ml_dsa_44_p8fmt ! 3]"
  "resolve_spec ml_dsa_44_p8fmt ''seed,bare,seed'' = [ml_dsa_44_p8fmt ! 0, ml_dsa_44_p8fmt ! 4, ml_dsa_44_p8fmt ! 3]"
  "map (first_match ''seed,bare,seed'') [ml_dsa_44_p8fmt ! 0, ml_dsa_44_p8fmt ! 4, ml_dsa_44_p8fmt ! 3] = [0, 1, 0]"
  "map p8_name [ml_dsa_44_p8fmt ! 0, ml_dsa_44_p8fmt ! 4, ml_dsa_44_p8fmt ! 3] = [''seed-priv'', ''bare-priv'', ''seed-only'']"
  "tokens ''seed'' = [''seed'']"
  "filter (\<lambda>f. p8_name f \<in> set (tokens ''seed'')) ml_dsa_44_p8fmt = []"
  by (simp_all add: resolve_eval table_defs matched_descriptors_def first_match_def)

subsection \<open>Claims about the preference resolver\<close>

lemma example_config:
  assumes "ml_dsa_get_codec t = Some codec"
  shows "resolve_spec (p8fmt codec) ''bare-seed,unknown,priv-only'' = [p8fmt codec ! 5, p8fmt codec ! 1]"
    and "resolve_spec (p8fmt codec) ''bare-seed,priv-only'' = [p8fmt codec ! 5, p8fmt codec ! 1]"
    and "map p8_name [p8fmt codec ! 5, p8fmt codec ! 1] = [''bare-seed'', ''priv-only'']"
proof -
  have a: "resolve_spec ml_dsa_44_p8fmt ''bare-seed,unknown,priv-only'' = [ml_dsa_44_p8fmt ! 5, ml_dsa_44_p8fmt ! 1]"
    "resolve_spec ml_dsa_65_p8fmt ''bare-seed,unknown,priv-only'' = [ml_dsa_65_p8fmt ! 5, ml_dsa_65_p8fmt ! 1]"
    "resolve_spec ml_dsa_87_p8fmt ''bare-seed,unknown,priv-only'' = [ml_dsa_87_p8fmt ! 5, ml_dsa_87_p8fmt ! 1]"
    by (simp_all add: resolve_eval table_defs)
  have b: "resolve_spec ml_dsa_44_p8fmt ''bare-seed,priv-only'' = [ml_dsa_44_p8fmt ! 5, ml_dsa_44_p8fmt ! 1]"
    "resolve_spec ml_dsa_65_p8fmt ''bare-seed,priv-only'' = [ml_dsa_65_p8fmt ! 5, ml_dsa_65_p8fmt ! 1]"
    "resolve_spec ml_dsa_87_p8fmt ''bare-seed,priv-only'' = [ml_dsa_87_p8fmt ! 5, ml_dsa_87_p8fmt ! 1]"
    by (simp_all add: resolve_eval table_defs)
  have c: "map p8_name [ml_dsa_44_p8fmt ! 5, ml_dsa_44_p8fmt ! 1] = [''bare-seed'', ''priv-only'']"
    "map p8_name [ml_dsa_65_p8fmt ! 5, ml_dsa_65_p8fmt ! 1] = [''bare-seed'', ''priv-only'']"
    "map p8_name [ml_dsa_87_p8fmt ! 5, ml_dsa_87_p8fmt ! 1] = [''bare-seed'', ''priv-only'']"
    by (simp_all add: table_defs)
  from codec_cases [OF assms] a
  show "resolve_spec (p8fmt codec) ''bare-seed,unknown,priv-only'' = [p8fmt codec ! 5, p8fmt codec ! 1]"
    by (elim disjE) (simp_all only:)
  from codec_cases [OF assms] b
  show "resolve_spec (p8fmt codec) ''bare-seed,priv-only'' = [p8fmt codec ! 5, p8fmt codec ! 1]"
    by (elim disjE) (simp_all only:)
  from codec_cases [OF assms] c
  show "map p8_name [p8fmt codec ! 5, p8fmt codec ! 1] = [''bare-seed'', ''priv-only'']"
    by (elim disjE) (simp_all only:)
qed

text \<open>
  C5 as stated fails: the output is not the set of all descriptors whose names are
  matched by some token, and it is not ordered by first match. On the ML-DSA-44 table
  the configuration \<open>seed\<close> enables \<open>seed-priv\<close> alone, although the token matches
  the name \<open>seed-only\<close> as well (and no name is the token itself, should matching mean
  equality); the configuration \<open>seed,bare,seed\<close> enables \<open>seed-priv\<close>,
  \<open>bare-priv\<close>, \<open>seed-only\<close> in this order, although \<open>seed-only\<close> is first
  matched by token 0 and \<open>bare-priv\<close> by token 1.
\<close>

theorem C5_matched_counterexample:
  "vp8_order ml_dsa_44_p8fmt (Some ''seed'') = Inr [ml_dsa_44_p8fmt ! 0]
   \<and> matched_descriptors ml_dsa_44_p8fmt ''seed'' = [ml_dsa_44_p8fmt ! 0, ml_dsa_44_p8fmt ! 3]
   \<and> set [ml_dsa_44_p8fmt ! 0] \<noteq> set (matched_descriptors ml_dsa_44_p8fmt ''seed'')
   \<and> filter (\<lambda>f. p8_name f \<in> set (tokens ''seed'')) ml_dsa_44_p8fmt = []
   \<and> vp8_order ml_dsa_44_p8fmt (Some ''seed,bare,seed'')
       = Inr [ml_dsa_44_p8fmt ! 0, ml_dsa_44_p8fmt ! 4, ml_dsa_44_p8fmt ! 3]
   \<and> map p8_name [ml_dsa_44_p8fmt ! 0, ml_dsa_44_p8fmt ! 4, ml_dsa_44_p8fmt ! 3]
       = [''seed-priv'', ''bare-priv'', ''seed-only'']
   \<and> map (first_match ''seed,bare,seed'') [ml_dsa_44_p8fmt ! 0, ml_dsa_44_p8fmt ! 4, ml_dsa_44_p8fmt ! 3]
       = [0, 1, 0]
   \<and> \<not> sorted (map (first_match ''seed,bare,seed'')
          [ml_dsa_44_p8fmt ! 0, ml_dsa_44_p8fmt ! 4, ml_dsa_44_p8fmt ! 3])"
proof -
  note r = vp8_order_resolve [OF table_facts [OF codec_44], simplified]
  have a: "vp8_order ml_dsa_44_p8fmt (Some ''seed'') = Inr [ml_dsa_44_p8fmt ! 0]"
    unfolding r by (simp add: c5_examples(1))
  have b: "vp8_order ml_dsa_44_p8fmt (Some ''seed,bare,seed'')
       = Inr [ml_dsa_44_p8fmt ! 0, ml_dsa_44_p8fmt ! 4, ml_dsa_44_p8fmt ! 3]"
    unfolding r by (simp add: c5_examples(3))
  have c: "set [ml_dsa_44_p8fmt ! 0] \<noteq> set (matched_descriptors ml_dsa_44_p8fmt ''seed'')"
    unfolding c5_examples(2) by (simp add: table_defs)
  have d: "\<not> sorted (map (first_match ''seed,bare,seed'')
          [ml_dsa_44_p8fmt ! 0, ml_dsa_44_p8fmt ! 4, ml_dsa_44_p8fmt ! 3])"
    unfolding c5_examples(4) by simp
  show ?thesis
    using a b c d c5_examples(2,4,5,7) by (simp only: simp_thms)
qed

text \<open>
  C5 (amended): for each of the three parameter sets and every configuration string, the
  output of the preference resolver is exactly the list of the selected descriptors in
  the order of their selection, where each token in turn selects the first descriptor of
  the table that is not yet selected and whose name begins with the token, letter case
  ignored (\<open>resolve_spec\<close>); the resolver fails with \<open>PROV_R_ML_DSA_NO_FORMAT\<close> when
  that list is empty. The output has no duplicates and no more entries than the string
  has tokens; it holds descriptors of the table only, each matched by some token, so
  that descriptors no token matches are absent; and a descriptor matched by a token but
  absent from the output stands in the table after a descriptor of the output that the
  same token matches. The configuration \<open>bare-seed,unknown,priv-only\<close> yields exactly
  \<open>bare-seed\<close> then \<open>priv-only\<close>, the same as without the unrecognised token.
\<close>

theorem C5_vp8_order_selected_in_order:
  assumes "ml_dsa_get_codec t = Some codec"
  shows "vp8_order (p8fmt codec) (Some config) =
           (if resolve_spec (p8fmt codec) config = [] then Inl PROV_R_ML_DSA_NO_FORMAT
            else Inr (resolve_spec (p8fmt codec) config))
       \<and> distinct (resolve_spec (p8fmt codec) config)
       \<and> length (resolve_spec (p8fmt codec) config) \<le> length (tokens config)
       \<and> (\<forall>f\<in>set (resolve_spec (p8fmt codec) config).
             f \<in> set (p8fmt codec) \<and> (\<exists>tok\<in>set (tokens config). name_matches tok (p8_name f)))
       \<and> (\<forall>tok\<in>set (tokens config). \<forall>f\<in>set (p8fmt codec).
             name_matches tok (p8_name f) \<and> f \<notin> set (resolve_spec (p8fmt codec) config) \<longrightarrow>
             (\<exists>i j. i < j \<and> j < length (p8fmt codec) \<and> p8fmt codec ! j = f
                \<and> p8fmt codec ! i \<in> set (resolve_spec (p8fmt codec) config)
                \<and> name_matches tok (p8_name (p8fmt codec ! i))))
       \<and> vp8_order (p8fmt codec) (Some ''bare-seed,unknown,priv-only'') = Inr [p8fmt codec ! 5, p8fmt codec ! 1]
       \<and> map p8_name [p8fmt codec ! 5, p8fmt codec ! 1] = [''bare-seed'', ''priv-only'']
       \<and> vp8_order (p8fmt codec) (Some ''bare-seed,unknown,priv-only'')
           = vp8_order (p8fmt codec) (Some ''bare-seed,priv-only'')"
proof -
  note tf = table_facts [OF assms]
  note r = vp8_order_resolve [OF tf]
  have 1: "vp8_order (p8fmt codec) (Some config) =
           (if resolve_spec (p8fmt codec) config = [] then Inl PROV_R_ML_DSA_NO_FORMAT
            else Inr (resolve_spec (p8fmt codec) config))"
    by (rule r)
  have 2: "distinct (resolve_spec (p8fmt codec) config)"
    using resolve_spec_inv [of "p8fmt codec" config] by (rule conjunct1)
  have 3: "\<forall>f\<in>set (resolve_spec (p8fmt codec) config).
             f \<in> set (p8fmt codec) \<and> (\<exists>tok\<in>set (tokens config). name_matches tok (p8_name f))"
    by (rule ballI) (rule resolve_spec_matched)
  have 4: "vp8_order (p8fmt codec) (Some ''bare-seed,unknown,priv-only'') = Inr [p8fmt codec ! 5, p8fmt codec ! 1]"
    unfolding r example_config(1) [OF assms] by simp
  have 5: "vp8_order (p8fmt codec) (Some ''bare-seed,priv-only'') = Inr [p8fmt codec ! 5, p8fmt codec ! 1]"
    unfolding r example_config(2) [OF assms] by simp
  have 6: "length (resolve_spec (p8fmt codec) config) \<le> length (tokens config)"
    by (rule resolve_spec_length)
  have 7: "\<forall>tok\<in>set (tokens config). \<forall>f\<in>set (p8fmt codec).
             name_matches tok (p8_name f) \<and> f \<notin> set (resolve_spec (p8fmt codec) config) \<longrightarrow>
             (\<exists>i j. i < j \<and> j < length (p8fmt codec) \<and> p8fmt codec ! j = f
                \<and> p8fmt codec ! i \<in> set (resolve_spec (p8fmt codec) config)
                \<and> name_matches tok (p8_name (p8fmt codec ! i)))"
  proof (intro ballI impI)
    fix tok f
    assume "tok \<in> set (tokens config)" "f \<in> set (p8fmt codec)"
      "name_matches tok (p8_name f) \<and> f \<notin> set (resolve_spec (p8fmt codec) config)"
    then show "\<exists>i j. i < j \<and> j < length (p8fmt codec) \<and> p8fmt codec ! j = f
                \<and> p8fmt codec ! i \<in> set (resolve_spec (p8fmt codec) config)
                \<and> name_matches tok (p8_name (p8fmt codec ! i))"
      using resolve_spec_first [of tok config f "p8fmt codec"] by blast
  qed
  show ?thesis
    using 1 2 3 4 5 6 7 example_config(3) [OF assms] by (simp only: simp_thms)
qed

theorem C5_vp8_order_selected_in_order_witness:
  "ml_dsa_get_codec EVP_PKEY_ML_DSA_44 = Some \<lparr>spkifmt = ml_dsa_44_spkifmt, p8fmt = ml_dsa_44_p8fmt\<rparr>
   \<and> vp8_order ml_dsa_44_p8fmt (Some ''priv, SEED,nope,seed'')
       = Inr [ml_dsa_44_p8fmt ! 1, ml_dsa_44_p8fmt ! 0, ml_dsa_44_p8fmt ! 3]"
proof -
  have r: "resolve_spec ml_dsa_44_p8fmt ''priv, SEED,nope,seed''
      = [ml_dsa_44_p8fmt ! 1, ml_dsa_44_p8fmt ! 0, ml_dsa_44_p8fmt ! 3]"
    by (simp add: resolve_eval table_defs)
  have "vp8_order ml_dsa_44_p8fmt (Some ''priv, SEED,nope,seed'') =
           (if resolve_spec ml_dsa_44_p8fmt ''priv, SEED,nope,seed'' = [] then Inl PROV_R_ML_DSA_NO_FORMAT
            else Inr (resolve_spec ml_dsa_44_p8fmt ''priv, SEED,nope,seed''))"
    using C5_vp8_order_selected_in_order [OF codec_44, of "''priv, SEED,nope,seed''", THEN conjunct1]
    by simp
  then show ?thesis
    unfolding r using codec_44 by simp
qed

text \<open>
  C7: the output of the preference resolver does not depend on how \<open>qsort\<close> arranges the
  array. For each parameter set and every configuration string that selects a descriptor,
  whichever arrays \<open>ys\<close> and \<open>ys'\<close> the sort may return within its contract (a
  permutation of the array in ascending order of \<open>pref_cmp\<close>), the enabled descriptors
  read from them are the same sequence, and it is the value of \<open>vp8_order\<close>: a function
  of the table and the configuration string alone.
\<close>

theorem C7_vp8_order_deterministic:
  assumes "ml_dsa_get_codec t = Some codec"
    and "vp8_tokens config (map (\<lambda>f. \<lparr>fmt = f, pref = 0\<rparr>) (p8fmt codec)) 0 = (ret, cnt)"
    and "cnt \<noteq> 0"
    and "qsort_result pref_cmp ret ys" and "qsort_result pref_cmp ret ys'"
  shows "map fmt (take (nat cnt) ys) = map fmt (take (nat cnt) ys')
       \<and> vp8_order (p8fmt codec) (Some config) = Inr (map fmt (take (nat cnt) ys))"
proof -
  note tf = table_facts [OF assms(1)]
  let ?sel = "resolve_spec (p8fmt codec) config"
  from assms(2) have ret: "ret = map (ranked ?sel) (p8fmt codec)" and cnt: "cnt = int (length ?sel)"
    unfolding vp8_tokens_resolve [OF tf] by simp_all
  have a: "map fmt (take (length ?sel) ys) = ?sel"
    using tf(1) assms(4) unfolding ret by (rule sorted_resolve)
  have b: "map fmt (take (length ?sel) ys') = ?sel"
    using tf(1) assms(5) unfolding ret by (rule sorted_resolve)
  have "?sel \<noteq> []" using assms(3) cnt by auto
  then have "vp8_order (p8fmt codec) (Some config) = Inr ?sel"
    unfolding vp8_order_resolve [OF tf] by simp
  then show ?thesis using a b by (simp add: cnt)
qed

theorem C7_vp8_order_deterministic_witness:
  "vp8_order ml_dsa_44_p8fmt (Some ''bare-seed,unknown,priv-only'')
     = Inr (map fmt (take 2
         [\<lparr>fmt = ml_dsa_44_p8fmt ! 5, pref = 1\<rparr>, \<lparr>fmt = ml_dsa_44_p8fmt ! 1, pref = 2\<rparr>,
          \<lparr>fmt = ml_dsa_44_p8fmt ! 4, pref = 0\<rparr>, \<lparr>fmt = ml_dsa_44_p8fmt ! 3, pref = 0\<rparr>,
          \<lparr>fmt = ml_dsa_44_p8fmt ! 2, pref = 0\<rparr>, \<lparr>fmt = ml_dsa_44_p8fmt ! 0, pref = 0\<rparr>]))"
proof -
  let ?ret = "[\<lparr>fmt = ml_dsa_44_p8fmt ! 0, pref = 0\<rparr>, \<lparr>fmt = ml_dsa_44_p8fmt ! 1, pref = 2\<rparr>,
          \<lparr>fmt = ml_dsa_44_p8fmt ! 2, pref = 0\<rparr>, \<lparr>fmt = ml_dsa_44_p8fmt ! 3, pref = 0\<rparr>,
          \<lparr>fmt = ml_dsa_44_p8fmt ! 4, pref = 0\<rparr>, \<lparr>fmt = ml_dsa_44_p8fmt ! 5, pref = 1\<rparr>]"
  let ?ys = "[\<lparr>fmt = ml_dsa_44_p8fmt ! 5, pref = 1\<rparr>, \<lparr>fmt = ml_dsa_44_p8fmt ! 1, pref = 2\<rparr>,
          \<lparr>fmt = ml_dsa_44_p8fmt ! 4, pref = 0\<rparr>, \<lparr>fmt = ml_dsa_44_p8fmt ! 3, pref = 0\<rparr>,
          \<lparr>fmt = ml_dsa_44_p8fmt ! 2, pref = 0\<rparr>, \<lparr>fmt = ml_dsa_44_p8fmt ! 0, pref = 0\<rparr>]"
  have r: "resolve_spec ml_dsa_44_p8fmt ''bare-seed,unknown,priv-only'' = [ml_dsa_44_p8fmt ! 5, ml_dsa_44_p8fmt ! 1]"
    by (simp add: resolve_eval table_defs)
  have m: "map (ranked [ml_dsa_44_p8fmt ! 5, ml_dsa_44_p8fmt ! 1]) ml_dsa_44_p8fmt = ?ret"
    by (simp add: ranked_def table_defs)
  have t: "vp8_tokens ''bare-seed,unknown,priv-only''
      (map (\<lambda>f. \<lparr>fmt = f, pref = 0\<rparr>) (p8fmt \<lparr>spkifmt = ml_dsa_44_spkifmt, p8fmt = ml_dsa_44_p8fmt\<rparr>)) 0 = (?ret, 2)"
    using vp8_tokens_resolve [OF table_facts [OF codec_44], of "''bare-seed,unknown,priv-only''"] r m
    by simp
  have q: "qsort_result pref_cmp ?ret ?ys"
    by (simp add: qsort_result_def pref_cmp_def)
  show ?thesis
    using C7_vp8_order_deterministic [OF codec_44 t _ q q] by simp
qed

text \<open>
  C10: in the preference resolver a token selects by a case-insensitive prefix match of
  the length of the token. \<open>OPENSSL_strncasecmp\<close> on the name, the token and the token's
  length is 0 exactly when the name begins with the token's characters, letter case
  ignored; the inner loop gives the next preference to the first slot that has no
  preference yet and whose name matches that way, and leaves the array as it is when
  there is none. So the token \<open>seed\<close> selects \<open>seed-priv\<close> and the token \<open>priv\<close>
  selects \<open>priv-only\<close>.
\<close>

theorem C10_token_prefix_match:
  "(NUL \<notin> set tok \<longrightarrow>
      (OPENSSL_strncasecmp name (tok @ rest) (length tok) = 0) = name_matches tok name
      \<and> vp8_select ret (tok @ rest) (length tok) cnt =
         (case dropWhile (\<lambda>r. \<not> selectable tok r) ret of
            [] \<Rightarrow> (ret, cnt)
          | r # post \<Rightarrow>
              (takeWhile (\<lambda>r. \<not> selectable tok r) ret @ r\<lparr>pref := cnt + 1\<rparr> # post, cnt + 1)))
   \<and> vp8_order ml_dsa_44_p8fmt (Some ''seed'') = Inr [ml_dsa_44_p8fmt ! 0]
   \<and> p8_name (ml_dsa_44_p8fmt ! 0) = ''seed-priv''
   \<and> vp8_order ml_dsa_44_p8fmt (Some ''priv'') = Inr [ml_dsa_44_p8fmt ! 1]
   \<and> p8_name (ml_dsa_44_p8fmt ! 1) = ''priv-only''"
proof -
  note r = vp8_order_resolve [OF table_facts [OF codec_44], simplified]
  have a: "vp8_order ml_dsa_44_p8fmt (Some ''seed'') = Inr [ml_dsa_44_p8fmt ! 0]"
    unfolding r by (simp add: resolve_eval table_defs)
  have b: "vp8_order ml_dsa_44_p8fmt (Some ''priv'') = Inr [ml_dsa_44_p8fmt ! 1]"
    unfolding r by (simp add: resolve_eval table_defs)
  have c: "p8_name (ml_dsa_44_p8fmt ! 0) = ''seed-priv''" "p8_name (ml_dsa_44_p8fmt ! 1) = ''priv-only''"
    by (simp_all add: table_defs)
  show ?thesis
    using a b c strncasecmp_prefix [of tok name rest] vp8_select_prefix [of tok ret rest cnt]
    by (simp only: simp_thms) blast
qed

theorem C10_token_prefix_match_witness:
  "OPENSSL_strncasecmp ''seed-priv'' ''SeEd,priv'' 4 = 0 \<and> name_matches ''SeEd'' ''seed-priv''
   \<and> OPENSSL_strncasecmp ''seed-priv'' ''seedy'' 5 \<noteq> 0 \<and> \<not> name_matches ''seedy'' ''seed-priv''"
proof -
  have n: "NUL \<notin> set ''SeEd''" "NUL \<notin> set ''seedy''" by (simp_all add: NUL_def)
  have m: "name_matches ''SeEd'' ''seed-priv''" "\<not> name_matches ''seedy'' ''seed-priv''"
    by (simp_all add: name_matches_def ossl_tolower_def char_of_eq_iff)
  have e: "''SeEd'' @ '',priv'' = ''SeEd,priv''" "length ''SeEd'' = 4"
    "''seedy'' @ [] = ''seedy''" "length ''seedy'' = 5"
    by simp_all
  have "(OPENSSL_strncasecmp ''seed-priv'' (''SeEd'' @ '',priv'') (length ''SeEd'') = 0)
      = name_matches ''SeEd'' ''seed-priv''"
    using C10_token_prefix_match [of "''SeEd''" "''seed-priv''" "'',priv''" "[]" 0] n(1) by blast
  then have 1: "OPENSSL_strncasecmp ''seed-priv'' ''SeEd,priv'' 4 = 0"
    unfolding e using m(1) by (simp only:)
  have "(OPENSSL_strncasecmp ''seed-priv'' (''seedy'' @ []) (length ''seedy'') = 0)
      = name_matches ''seedy'' ''seed-priv''"
    using C10_token_prefix_match [of "''seedy''" "''seed-priv''" "[]" "[]" 0] n(2) by blast
  then have 2: "OPENSSL_strncasecmp ''seed-priv'' ''seedy'' 5 \<noteq> 0"
    unfolding e using m(2) by blast
  show ?thesis
    using 1 2 m by (simp only: simp_thms)
qed

subsection \<open>Big-endian words\<close>

lemma u16_roundtrip:
  fixes w :: "16 word"
  shows "push_bit 8 (ucast (ucast (drop_bit 8 w) :: 8 word)) OR ucast (ucast w :: 8 word) = w"
  by (rule bit_word_eqI) (auto simp: bit_simps)

lemma u32_roundtrip:
  fixes w :: "32 word"
  shows "push_bit 24 (ucast (ucast (drop_bit 24 w) :: 8 word)) OR push_bit 16 (ucast (ucast (drop_bit 16 w) :: 8 word))
     OR push_bit 8 (ucast (ucast (drop_bit 8 w) :: 8 word)) OR ucast (ucast w :: 8 word) = w"
proof (rule bit_word_eqI)
  fix n assume "n < LENGTH(32)"
  then show "bit (push_bit 24 (ucast (ucast (drop_bit 24 w) :: 8 word)) OR push_bit 16 (ucast (ucast (drop_bit 16 w) :: 8 word))
     OR push_bit 8 (ucast (ucast (drop_bit 8 w) :: 8 word)) OR (ucast (ucast w :: 8 word) :: 32 word)) n = bit w n"
    by (cases "n < 8"; cases "n < 16"; cases "n < 24") (auto simp add: bit_simps)
qed

lemma u32_top16:
  fixes a b c d :: "8 word"
  shows "drop_bit 16 (push_bit 24 (ucast a) OR push_bit 16 (ucast b) OR push_bit 8 (ucast c) OR (ucast d :: 32 word))
     = push_bit 8 (ucast a) OR ucast b"
proof (rule bit_word_eqI)
  fix n assume "n < LENGTH(32)"
  then show "bit (drop_bit 16 (push_bit 24 (ucast a) OR push_bit 16 (ucast b) OR push_bit 8 (ucast c) OR (ucast d :: 32 word))) n
     = bit (push_bit 8 (ucast a) OR (ucast b :: 32 word)) n"
    by (cases "n < 8"; cases "n < 16") (auto simp add: bit_simps dest: bit_imp_le_length)
qed

lemma u16_in_u32:
  fixes m :: "32 word"
  assumes "drop_bit 16 m = 0"
  shows "push_bit 8 (ucast (ucast (drop_bit 8 (ucast m :: 16 word)) :: 8 word)) OR ucast (ucast (ucast m :: 16 word) :: 8 word) = m"
proof (rule bit_word_eqI)
  fix n assume n: "n < LENGTH(32)"
  have hi: "\<not> bit m k" if "16 \<le> k" for k
  proof -
    have "bit (drop_bit 16 m) (k - 16) = bit m k" using that by (simp add: bit_simps)
    then show ?thesis using assms by simp
  qed
  show "bit (push_bit 8 (ucast (ucast (drop_bit 8 (ucast m :: 16 word)) :: 8 word)) OR (ucast (ucast (ucast m :: 16 word) :: 8 word) :: 32 word)) n = bit m n"
    using n hi [of n] by (cases "n < 8"; cases "n < 16") (auto simp add: bit_simps)
qed

lemma load_store_u32: "load_u32_be (pre @ store_u32_be w @ post) (int (length pre)) = Some w"
  by (simp add: load_u32_be_def store_u32_be_def nth_append u32_roundtrip)

lemma load_store_u16: "load_u16_be (pre @ store_u16_be w @ post) (int (length pre)) = Some w"
  by (simp add: load_u16_be_def store_u16_be_def nth_append u16_roundtrip)

subsection \<open>The private key codec\<close>

lemma err_bind_simps [simp]: "err_bind (Inr x) k = k x" "err_bind (Inl e) k = Inl e"
  by (simp_all add: err_bind_def)

lemma of_option_simps [simp]: "of_option e (Some x) = Inr x" "of_option e None = Inl e"
  by (simp_all add: of_option_def)

subsubsection \<open>The tables\<close>

lemma params_cases:
  assumes "ossl_ml_dsa_params_get t = Some v"
  shows "t = EVP_PKEY_ML_DSA_44 \<and> sk_len v = 2560 \<and> pk_len v = 1312 \<and> evp_type_of v = t
       \<or> t = EVP_PKEY_ML_DSA_65 \<and> sk_len v = 4032 \<and> pk_len v = 1952 \<and> evp_type_of v = t
       \<or> t = EVP_PKEY_ML_DSA_87 \<and> sk_len v = 4896 \<and> pk_len v = 2592 \<and> evp_type_of v = t"
  using assms by (cases t) (auto simp: ossl_ml_dsa_params_get_def)

lemma codec_of_type:
  assumes "ml_dsa_get_codec t = Some codec"
  shows "t = EVP_PKEY_ML_DSA_44 \<and> p8fmt codec = ml_dsa_44_p8fmt
       \<or> t = EVP_PKEY_ML_DSA_65 \<and> p8fmt codec = ml_dsa_65_p8fmt
       \<or> t = EVP_PKEY_ML_DSA_87 \<and> p8fmt codec = ml_dsa_87_p8fmt"
  using assms by (cases t) (auto simp: ml_dsa_get_codec_def)


lemma tables_fit:
  "list_all (\<lambda>f. fits f \<lparr>alg = a, evp_type_of = e, sk_len = 2560, pk_len = 1312\<rparr>) ml_dsa_44_p8fmt"
  "list_all (\<lambda>f. fits f \<lparr>alg = a, evp_type_of = e, sk_len = 4032, pk_len = 1952\<rparr>) ml_dsa_65_p8fmt"
  "list_all (\<lambda>f. fits f \<lparr>alg = a, evp_type_of = e, sk_len = 4896, pk_len = 2592\<rparr>) ml_dsa_87_p8fmt"
  by (simp_all add: table_defs fits_def ML_DSA_SEED_BYTES_def)

lemma fits_cong: "sk_len v = sk_len v' \<Longrightarrow> pk_len v = pk_len v' \<Longrightarrow> fits f v = fits f v'"
  by (simp add: fits_def)

lemma table_fits:
  assumes c: "ml_dsa_get_codec t = Some codec" and p: "ossl_ml_dsa_params_get t = Some v"
    and f: "f \<in> set (p8fmt codec)"
  shows "fits f v"
proof -
  from codec_of_type [OF c] params_cases [OF p]
  consider "p8fmt codec = ml_dsa_44_p8fmt" "sk_len v = 2560" "pk_len v = 1312"
    | "p8fmt codec = ml_dsa_65_p8fmt" "sk_len v = 4032" "pk_len v = 1952"
    | "p8fmt codec = ml_dsa_87_p8fmt" "sk_len v = 4896" "pk_len v = 2592"
    by auto
  then show ?thesis
  proof cases
    case 1
    have "fits f \<lparr>alg = [], evp_type_of = t, sk_len = 2560, pk_len = 1312\<rparr>"
      using tables_fit(1) [of "[]" t] f unfolding 1(1) list_all_iff by (rule bspec)
    then show ?thesis using 1 by (simp add: fits_def)
  next
    case 2
    have "fits f \<lparr>alg = [], evp_type_of = t, sk_len = 4032, pk_len = 1952\<rparr>"
      using tables_fit(2) [of "[]" t] f unfolding 2(1) list_all_iff by (rule bspec)
    then show ?thesis using 2 by (simp add: fits_def)
  next
    case 3
    have "fits f \<lparr>alg = [], evp_type_of = t, sk_len = 4896, pk_len = 2592\<rparr>"
      using tables_fit(3) [of "[]" t] f unfolding 3(1) list_all_iff by (rule bspec)
    then show ?thesis using 3 by (simp add: fits_def)
  qed
qed

lemma table_bytes_distinct:
  assumes "ml_dsa_get_codec t = Some codec"
  shows "distinct (map p8_bytes (p8fmt codec))"
proof -
  have "distinct (map p8_bytes ml_dsa_44_p8fmt)" "distinct (map p8_bytes ml_dsa_65_p8fmt)"
    "distinct (map p8_bytes ml_dsa_87_p8fmt)"
    by (simp_all add: table_defs)
  with codec_cases [OF assms] show ?thesis by (elim disjE) (simp_all only:)
qed

lemma fits_checks:
  "((seed_length f > 0 \<and> seed_length f \<noteq> ML_DSA_SEED_BYTES)
     \<or> (priv_length f > 0 \<and> priv_length f \<noteq> sk_len v)
     \<or> (pub_length f > 0 \<and> pub_length f \<noteq> pk_len v)) = (\<not> fits f v)"
  by (auto simp: fits_def)

subsubsection \<open>The enabled formats\<close>

lemma vp8_order_subset:
  assumes "ml_dsa_get_codec t = Some codec" and "vp8_order (p8fmt codec) formats = Inr vp8"
  shows "set vp8 \<subseteq> set (p8fmt codec)" and "distinct vp8"
proof -
  note tf = table_facts [OF assms(1)]
  have "set vp8 \<subseteq> set (p8fmt codec) \<and> distinct vp8"
  proof (cases formats)
    case None
    then have "vp8 = p8fmt codec" using assms(2) by (simp add: vp8_order_default)
    then show ?thesis using tf(1) by simp
  next
    case (Some s)
    then have "vp8 = resolve_spec (p8fmt codec) s"
      using assms(2) unfolding Some vp8_order_resolve [OF tf] by (simp split: if_splits)
    then show ?thesis using resolve_spec_inv [of "p8fmt codec" s] by simp
  qed
  then show "set vp8 \<subseteq> set (p8fmt codec)" and "distinct vp8" by simp_all
qed


subsubsection \<open>The slot the decoder finds\<close>

lemma d2i_find_slot_Some:
  "d2i_find_slot len magic pos slots = Some (f, p) \<Longrightarrow>
     f \<in> set slots \<and> accepts f len magic \<and> p = pos - int (p8_shift f)"
proof (induction slots)
  case Nil
  then show ?case by simp
next
  case (Cons g slots)
  show ?case
  proof (cases "accepts g len magic")
    case True
    then have "d2i_find_slot len magic pos (g # slots) = Some (g, pos - int (p8_shift g))"
      by (simp add: accepts_def)
    then have "Some (g, pos - int (p8_shift g)) = Some (f, p)"
      using Cons.prems by (simp only:)
    then have "g = f" and "p = pos - int (p8_shift f)" by auto
    then show ?thesis using True by simp
  next
    case False
    then have "d2i_find_slot len magic pos (g # slots) = d2i_find_slot len magic pos slots"
      by (simp add: accepts_def)
    then have "d2i_find_slot len magic pos slots = Some (f, p)"
      using Cons.prems by (simp only:)
    from Cons.IH [OF this] show ?thesis by simp
  qed
qed

lemma d2i_find_slot_None:
  "d2i_find_slot len magic pos slots = None \<longleftrightarrow> (\<forall>f\<in>set slots. \<not> accepts f len magic)"
proof (induction slots)
  case Nil
  then show ?case by simp
next
  case (Cons g slots)
  show ?case
  proof (cases "accepts g len magic")
    case True
    then have "d2i_find_slot len magic pos (g # slots) = Some (g, pos - int (p8_shift g))"
      by (simp add: accepts_def)
    then have "d2i_find_slot len magic pos (g # slots) \<noteq> None" by (simp only: option.distinct not_False_eq_True)
    then show ?thesis using True by simp
  next
    case False
    then have "d2i_find_slot len magic pos (g # slots) = d2i_find_slot len magic pos slots"
      by (simp add: accepts_def)
    then have "(d2i_find_slot len magic pos (g # slots) = None) = (\<forall>f\<in>set slots. \<not> accepts f len magic)"
      using Cons.IH by (simp only:)
    then show ?thesis using False by simp
  qed
qed

lemma d2i_find_slot_unique:
  assumes inj: "inj_on p8_bytes (set slots)" and f: "f \<in> set slots" and acc: "accepts f len magic"
  shows "d2i_find_slot len magic pos slots = Some (f, pos - int (p8_shift f))"
proof (cases "d2i_find_slot len magic pos slots")
  case None
  then have "\<not> accepts f len magic" using f unfolding d2i_find_slot_None by (rule bspec)
  then show ?thesis using acc by simp
next
  case (Some gp)
  obtain g p where gp: "gp = (g, p)" by (cases gp)
  from Some have "d2i_find_slot len magic pos slots = Some (g, p)" by (simp only: gp)
  from d2i_find_slot_Some [OF this]
  have g: "g \<in> set slots" and ga: "accepts g len magic" and p: "p = pos - int (p8_shift g)"
    by simp_all
  have "p8_bytes g = p8_bytes f" using ga acc by (simp add: accepts_def)
  with inj have "g = f" using g f by (rule inj_onD)
  then show ?thesis using Some gp p by simp
qed

lemma d2i_find_slot_order:
  assumes inj: "inj_on p8_bytes (set cs)" and eq: "set cs' = set cs"
  shows "d2i_find_slot len magic pos cs' = d2i_find_slot len magic pos cs"
proof (cases "d2i_find_slot len magic pos cs")
  case None
  then have "\<forall>f\<in>set cs'. \<not> accepts f len magic" unfolding d2i_find_slot_None eq .
  then have "d2i_find_slot len magic pos cs' = None" unfolding d2i_find_slot_None .
  then show ?thesis using None by simp
next
  case (Some gp)
  obtain g p where gp: "gp = (g, p)" by (cases gp)
  from Some have "d2i_find_slot len magic pos cs = Some (g, p)" by (simp only: gp)
  from d2i_find_slot_Some [OF this]
  have g: "g \<in> set cs'" and ga: "accepts g len magic" and p: "p = pos - int (p8_shift g)"
    unfolding eq by simp_all
  have "inj_on p8_bytes (set cs')" using inj by (simp only: eq)
  then have "d2i_find_slot len magic pos cs' = Some (g, pos - int (p8_shift g))"
    using g ga by (rule d2i_find_slot_unique)
  then show ?thesis using Some gp p by simp
qed

lemma inj_on_table:
  assumes "ml_dsa_get_codec t = Some codec" and "set cs \<subseteq> set (p8fmt codec)"
  shows "inj_on p8_bytes (set cs)"
proof -
  have "inj_on p8_bytes (set (p8fmt codec))"
    using table_bytes_distinct [OF assms(1)] by (simp only: distinct_map)
  then show ?thesis using assms(2) by (rule inj_on_subset)
qed

subsubsection \<open>The slot the encoder finds\<close>

lemma i2d_find_slot_find:
  "i2d_find_slot have_seed slots = find (\<lambda>f. have_seed \<or> seed_length f = 0) slots"
  by (induction slots) auto

lemma filter_distinct_key:
  "distinct (map g xs) \<Longrightarrow> length (filter (\<lambda>x. g x = y) xs) \<le> 1"
proof (induction xs)
  case Nil
  then show ?case by simp
next
  case (Cons x xs)
  show ?case
  proof (cases "g x = y")
    case True
    then have "\<forall>z\<in>set xs. g z \<noteq> y" using Cons.prems by (auto simp: image_iff)
    then have "filter (\<lambda>x. g x = y) xs = []" by (simp add: filter_empty_conv)
    then show ?thesis using True by simp
  next
    case False
    then show ?thesis using Cons by simp
  qed
qed

lemma d2i_same_slots:
  assumes "ml_dsa_get_codec t = Some codec"
    and "vp8_order (p8fmt codec) (input_formats c) = Inr vp8"
    and "vp8_order (p8fmt codec) (input_formats c') = Inr vp8'"
    and "\<And>len magic pos. d2i_find_slot len magic pos vp8' = d2i_find_slot len magic pos vp8"
    and "prefer_seed c' = prefer_seed c" and "retain_seed c' = retain_seed c"
  shows "ossl_ml_dsa_d2i_PKCS8 p8 t c' = ossl_ml_dsa_d2i_PKCS8 p8 t c"
  unfolding ossl_ml_dsa_d2i_PKCS8_def d2i_fields_def
  by (simp add: assms Let_def cong: if_cong)

subsubsection \<open>Failures of the decoder\<close>







lemma d2i_unfold:
  assumes "ossl_ml_dsa_params_get t = Some v" and "ml_dsa_get_codec t = Some codec"
    and "pkey_alg p8inf = t"
    and "vp8_order (p8fmt codec) (input_formats provctx) = Inr vp8"
    and "pkey_ptype_undef p8inf" and "4 \<le> length (pkey_buf p8inf)"
    and "load_u32_be (pkey_buf p8inf) 0 = Some magic"
  shows "ossl_ml_dsa_d2i_PKCS8 (Some p8inf) t provctx =
     (case d2i_find_slot (length (pkey_buf p8inf)) magic 4 vp8 of
        None \<Rightarrow> Inl PROV_R_ML_DSA_NO_FORMAT
      | Some (f, pos) \<Rightarrow>
          if \<not> fits f v then Inl PROV_R_ML_DSA_NO_FORMAT
          else d2i_fields f v (pkey_buf p8inf) pos provctx)"
  unfolding ossl_ml_dsa_d2i_PKCS8_def fits_checks
  using assms by (simp add: Let_def split: option.splits)



subsection \<open>Layouts, serialisation and validation\<close>

subsubsection \<open>Layouts of the tables\<close>

lemma tables_layouts:
  "list_all (\<lambda>f. seed_length f \<noteq> 0 \<longrightarrow>
      layout_seed_priv f \<lparr>alg = a, evp_type_of = e, sk_len = 2560, pk_len = 1312\<rparr>
      \<or> layout_seed_only f \<or> layout_bare_seed f) ml_dsa_44_p8fmt"
  "list_all (\<lambda>f. seed_length f \<noteq> 0 \<longrightarrow>
      layout_seed_priv f \<lparr>alg = a, evp_type_of = e, sk_len = 4032, pk_len = 1952\<rparr>
      \<or> layout_seed_only f \<or> layout_bare_seed f) ml_dsa_65_p8fmt"
  "list_all (\<lambda>f. seed_length f \<noteq> 0 \<longrightarrow>
      layout_seed_priv f \<lparr>alg = a, evp_type_of = e, sk_len = 4896, pk_len = 2592\<rparr>
      \<or> layout_seed_only f \<or> layout_bare_seed f) ml_dsa_87_p8fmt"
  by (simp_all add: table_defs layout_seed_priv_def layout_seed_only_def layout_bare_seed_def)

lemma table_layout:
  assumes c: "ml_dsa_get_codec t = Some codec" and p: "ossl_ml_dsa_params_get t = Some v"
    and f: "f \<in> set (p8fmt codec)" and s: "seed_length f \<noteq> 0"
  shows "layout_seed_priv f v \<or> layout_seed_only f \<or> layout_bare_seed f"
proof -
  from codec_of_type [OF c] params_cases [OF p]
  consider "p8fmt codec = ml_dsa_44_p8fmt" "sk_len v = 2560" "pk_len v = 1312"
    | "p8fmt codec = ml_dsa_65_p8fmt" "sk_len v = 4032" "pk_len v = 1952"
    | "p8fmt codec = ml_dsa_87_p8fmt" "sk_len v = 4896" "pk_len v = 2592"
    by auto
  then show ?thesis
  proof cases
    case 1
    have "seed_length f \<noteq> 0 \<longrightarrow> layout_seed_priv f \<lparr>alg = [], evp_type_of = t, sk_len = 2560, pk_len = 1312\<rparr>
       \<or> layout_seed_only f \<or> layout_bare_seed f"
      using tables_layouts(1) [of "[]" t] f unfolding 1(1) list_all_iff by (rule bspec)
    then show ?thesis using s 1 by (simp add: layout_seed_priv_def)
  next
    case 2
    have "seed_length f \<noteq> 0 \<longrightarrow> layout_seed_priv f \<lparr>alg = [], evp_type_of = t, sk_len = 4032, pk_len = 1952\<rparr>
       \<or> layout_seed_only f \<or> layout_bare_seed f"
      using tables_layouts(2) [of "[]" t] f unfolding 2(1) list_all_iff by (rule bspec)
    then show ?thesis using s 2 by (simp add: layout_seed_priv_def)
  next
    case 3
    have "seed_length f \<noteq> 0 \<longrightarrow> layout_seed_priv f \<lparr>alg = [], evp_type_of = t, sk_len = 4896, pk_len = 2592\<rparr>
       \<or> layout_seed_only f \<or> layout_bare_seed f"
      using tables_layouts(3) [of "[]" t] f unfolding 3(1) list_all_iff by (rule bspec)
    then show ?thesis using s 3 by (simp add: layout_seed_priv_def)
  qed
qed

subsubsection \<open>Serialisation of the seed layouts\<close>

lemma length_store [simp]: "length (store_u32_be w) = 4" "length (store_u16_be w') = 2"
  by (simp_all add: store_u32_be_def store_u16_be_def)

lemma mem_read_all: "length bs = n \<Longrightarrow> mem_read bs 0 n = Some bs"
  by (simp add: mem_read_def)

lemma mem_read_mid: "length pre = off \<Longrightarrow> length bs = n \<Longrightarrow> mem_read (pre @ bs @ post) off n = Some bs"
  by (simp add: mem_read_def)

lemma i2d_payload_seed_priv:
  assumes "layout_seed_priv f v" and "length seed = 32" and "length sk = sk_len v"
  shows "i2d_payload f v (Some seed) (Some sk) pk =
     Inr (store_u32_be (p8_magic f) @ store_u16_be (seed_magic f) @ seed @ store_u32_be (priv_magic f) @ sk)"
  using assms
  by (simp add: layout_seed_priv_def i2d_payload_def i2d_header_def i2d_seed_def i2d_priv_def
      i2d_pub_def i2d_put_def i2d_copy_def mem_read_all ML_DSA_SEED_BYTES_def Let_def
      store_u16_be_def store_u32_be_def)

lemma i2d_payload_seed_only:
  assumes "layout_seed_only f" and "length seed = 32"
  shows "i2d_payload f v (Some seed) sk pk = Inr (store_u16_be (ucast (p8_magic f)) @ seed)"
  using assms
  by (simp add: layout_seed_only_def i2d_payload_def i2d_header_def i2d_seed_def i2d_priv_def
      i2d_pub_def i2d_put_def i2d_copy_def mem_read_all ML_DSA_SEED_BYTES_def Let_def
      store_u16_be_def store_u32_be_def)

lemma i2d_payload_bare_seed:
  assumes "layout_bare_seed f" and "length seed = 32"
  shows "i2d_payload f v (Some seed) sk pk = Inr seed"
  using assms
  by (simp add: layout_bare_seed_def i2d_payload_def i2d_header_def i2d_seed_def i2d_priv_def
      i2d_pub_def i2d_put_def i2d_copy_def mem_read_all ML_DSA_SEED_BYTES_def Let_def
      store_u16_be_def store_u32_be_def)

subsubsection \<open>Validation of the seed layouts\<close>

lemma d2i_seed_priv_layout:
  assumes lay: "layout_seed_priv f v" and ls: "length seed = 32" and lk: "length sk = sk_len v"
    and buf: "buf = store_u32_be (p8_magic f) @ store_u16_be (seed_magic f) @ seed
                     @ store_u32_be (priv_magic f) @ sk"
  shows "length buf = p8_bytes f"
    and "load_u32_be buf 0 = Some (p8_magic f)"
    and "accepts f (length buf) (p8_magic f)"
    and "d2i_seed f buf 4 = Inr 38"
    and "d2i_priv f v buf 38 = Inr (int (p8_bytes f))"
    and "d2i_pub f v (int (p8_bytes f)) = Inr (int (p8_bytes f))"
    and "d2i_field buf (seed_length f > 0) (seed_offset f) ML_DSA_SEED_BYTES = Inr (Some seed)"
    and "d2i_field buf (priv_length f > 0) (priv_offset f) (sk_len v) = Inr (Some sk)"
proof -
  let ?H = "store_u32_be (p8_magic f)" and ?S = "store_u16_be (seed_magic f)"
  let ?P = "store_u32_be (priv_magic f)"
  from lay have sh: "p8_shift f = 0" and so: "seed_offset f = 6" and sl: "seed_length f = 32"
    and po: "priv_offset f = 42" and pl: "priv_length f = sk_len v" and nz: "sk_len v \<noteq> 0"
    and ul: "pub_length f = 0" and tot: "p8_bytes f = 42 + sk_len v"
    by (simp_all add: layout_seed_priv_def)
  show len: "length buf = p8_bytes f" by (simp add: buf ls lk tot)
  have "load_u32_be ([] @ ?H @ (?S @ seed @ ?P @ sk)) (int (length ([] :: byte list))) = Some (p8_magic f)"
    by (rule load_store_u32)
  then show m: "load_u32_be buf 0 = Some (p8_magic f)" by (simp add: buf)
  show "accepts f (length buf) (p8_magic f)" by (simp add: accepts_def len sh)
  have "load_u16_be (?H @ ?S @ (seed @ ?P @ sk)) (int (length ?H)) = Some (seed_magic f)"
    by (rule load_store_u16)
  then have "load_u16_be buf 4 = Some (seed_magic f)" by (simp add: buf)
  then show "d2i_seed f buf 4 = Inr 38"
    by (simp add: d2i_seed_def so sl ML_DSA_SEED_BYTES_def)
  have "load_u32_be ((?H @ ?S @ seed) @ ?P @ sk) (int (length (?H @ ?S @ seed))) = Some (priv_magic f)"
    by (rule load_store_u32)
  then have "load_u32_be buf 38 = Some (priv_magic f)" by (simp add: buf ls)
  then show "d2i_priv f v buf 38 = Inr (int (p8_bytes f))"
    using nz by (simp add: d2i_priv_def po pl tot)
  show "d2i_pub f v (int (p8_bytes f)) = Inr (int (p8_bytes f))"
    by (simp add: d2i_pub_def ul)
  have "mem_read ((?H @ ?S) @ seed @ (?P @ sk)) 6 32 = Some seed"
    by (rule mem_read_mid) (simp_all add: ls)
  then show "d2i_field buf (seed_length f > 0) (seed_offset f) ML_DSA_SEED_BYTES = Inr (Some seed)"
    by (simp add: d2i_field_def buf so sl ML_DSA_SEED_BYTES_def)
  have "mem_read ((?H @ ?S @ seed @ ?P) @ sk @ []) 42 (sk_len v) = Some sk"
    by (rule mem_read_mid) (simp_all add: ls lk)
  then show "d2i_field buf (priv_length f > 0) (priv_offset f) (sk_len v) = Inr (Some sk)"
    using nz by (simp add: d2i_field_def buf po pl)
qed

lemma d2i_seed_only_layout:
  assumes lay: "layout_seed_only f" and ls: "length seed = 32"
    and buf: "buf = store_u16_be (ucast (p8_magic f)) @ seed"
  shows "length buf = p8_bytes f"
    and "\<exists>magic. load_u32_be buf 0 = Some magic \<and> accepts f (length buf) magic"
    and "d2i_seed f buf 2 = Inr (int (p8_bytes f))"
    and "d2i_priv f v buf (int (p8_bytes f)) = Inr (int (p8_bytes f))"
    and "d2i_pub f v (int (p8_bytes f)) = Inr (int (p8_bytes f))"
    and "d2i_field buf (seed_length f > 0) (seed_offset f) ML_DSA_SEED_BYTES = Inr (Some seed)"
    and "d2i_field buf (priv_length f > 0) (priv_offset f) (sk_len v) = Inr None"
proof -
  from lay have sh: "p8_shift f = 2" and fit: "drop_bit 16 (p8_magic f) = 0"
    and so: "seed_offset f = 2" and sl: "seed_length f = 32"
    and pl: "priv_length f = 0" and ul: "pub_length f = 0" and tot: "p8_bytes f = 34"
    by (simp_all add: layout_seed_only_def)
  show len: "length buf = p8_bytes f" by (simp add: buf ls tot)
  obtain s0 s1 rest where seed: "seed = s0 # s1 # rest"
    using ls by (cases seed; cases "tl seed") auto
  let ?a = "ucast (drop_bit 8 (ucast (p8_magic f) :: 16 word)) :: byte"
  let ?b = "ucast (ucast (p8_magic f) :: 16 word) :: byte"
  let ?M = "push_bit 24 (ucast ?a) OR push_bit 16 (ucast ?b) OR push_bit 8 (ucast s0) OR (ucast s1 :: 32 word)"
  have m: "load_u32_be buf 0 = Some ?M"
    by (simp add: load_u32_be_def buf seed store_u16_be_def)
  have "drop_bit 16 ?M = push_bit 8 (ucast ?a) OR ucast ?b" by (rule u32_top16)
  also have "\<dots> = p8_magic f" using fit by (rule u16_in_u32)
  finally have "accepts f (length buf) ?M" by (simp add: accepts_def len sh)
  with m show "\<exists>magic. load_u32_be buf 0 = Some magic \<and> accepts f (length buf) magic" by blast
  show "d2i_seed f buf 2 = Inr (int (p8_bytes f))"
    by (simp add: d2i_seed_def so sl tot ML_DSA_SEED_BYTES_def)
  show "d2i_priv f v buf (int (p8_bytes f)) = Inr (int (p8_bytes f))"
    by (simp add: d2i_priv_def pl)
  show "d2i_pub f v (int (p8_bytes f)) = Inr (int (p8_bytes f))"
    by (simp add: d2i_pub_def ul)
  have "mem_read (store_u16_be (ucast (p8_magic f)) @ seed @ []) 2 32 = Some seed"
    by (rule mem_read_mid) (simp_all add: ls)
  then show "d2i_field buf (seed_length f > 0) (seed_offset f) ML_DSA_SEED_BYTES = Inr (Some seed)"
    by (simp add: d2i_field_def buf so sl ML_DSA_SEED_BYTES_def)
  show "d2i_field buf (priv_length f > 0) (priv_offset f) (sk_len v) = Inr None"
    by (simp add: d2i_field_def pl)
qed

lemma d2i_bare_seed_layout:
  assumes lay: "layout_bare_seed f" and ls: "length seed = 32"
  shows "length seed = p8_bytes f"
    and "\<exists>magic. load_u32_be seed 0 = Some magic"
    and "accepts f (length seed) magic"
    and "d2i_seed f seed 0 = Inr (int (p8_bytes f))"
    and "d2i_priv f v seed (int (p8_bytes f)) = Inr (int (p8_bytes f))"
    and "d2i_pub f v (int (p8_bytes f)) = Inr (int (p8_bytes f))"
    and "d2i_field seed (seed_length f > 0) (seed_offset f) ML_DSA_SEED_BYTES = Inr (Some seed)"
    and "d2i_field seed (priv_length f > 0) (priv_offset f) (sk_len v) = Inr None"
proof -
  from lay have sh: "p8_shift f = 4" and so: "seed_offset f = 0" and sl: "seed_length f = 32"
    and pl: "priv_length f = 0" and ul: "pub_length f = 0" and tot: "p8_bytes f = 32"
    by (simp_all add: layout_bare_seed_def)
  show len: "length seed = p8_bytes f" by (simp add: ls tot)
  show "\<exists>magic. load_u32_be seed 0 = Some magic" by (simp add: load_u32_be_def ls)
  show "accepts f (length seed) magic" by (simp add: accepts_def len sh)
  show "d2i_seed f seed 0 = Inr (int (p8_bytes f))"
    by (simp add: d2i_seed_def so sl tot ML_DSA_SEED_BYTES_def)
  show "d2i_priv f v seed (int (p8_bytes f)) = Inr (int (p8_bytes f))"
    by (simp add: d2i_priv_def pl)
  show "d2i_pub f v (int (p8_bytes f)) = Inr (int (p8_bytes f))"
    by (simp add: d2i_pub_def ul)
  show "d2i_field seed (seed_length f > 0) (seed_offset f) ML_DSA_SEED_BYTES = Inr (Some seed)"
    by (simp add: d2i_field_def so sl ML_DSA_SEED_BYTES_def mem_read_all ls)
  show "d2i_field seed (priv_length f > 0) (priv_offset f) (sk_len v) = Inr None"
    by (simp add: d2i_field_def pl)
qed

subsubsection \<open>The format the encoder selects\<close>

lemma i2d_select:
  assumes p: "ossl_ml_dsa_params_get t = Some (key_params key)"
    and c: "ml_dsa_get_codec t = Some codec"
    and sk: "key_priv key \<noteq> None"
    and v: "vp8_order (p8fmt codec) (output_formats provctx) = Inr vp8"
  shows "ossl_ml_dsa_i2d_prvkey key out provctx =
     (case find (\<lambda>f. \<not> (seed_length f \<noteq> 0 \<and> key_seed key = None) \<and> fits f (key_params key)) vp8 of
        None \<Rightarrow> Inl PROV_R_ML_DSA_NO_FORMAT
      | Some f \<Rightarrow>
          if out then
            err_bind (i2d_payload f (key_params key) (key_seed key) (key_priv key) (key_pub key))
              (\<lambda>buf. Inr (p8_bytes f, Some buf))
          else Inr (p8_bytes f, None))"
proof -
  let ?P = "\<lambda>f. \<not> (seed_length f \<noteq> 0 \<and> key_seed key = None) \<and> fits f (key_params key)"
  have t: "evp_type_of (key_params key) = t" using params_cases [OF p] by auto
  from sk obtain skb where skb: "key_priv key = Some skb" by auto
  have fit: "fits f (key_params key)" if "f \<in> set vp8" for f
  proof -
    have "f \<in> set (p8fmt codec)" using vp8_order_subset(1) [OF c v] that by (rule subsetD)
    with c p show ?thesis by (rule table_fits)
  qed
  have "find (\<lambda>f. key_seed key \<noteq> None \<or> seed_length f = 0) vp8 = find ?P vp8"
    by (rule find_cong [OF refl]) (auto simp: fit)
  then have slot: "i2d_find_slot (key_seed key \<noteq> None) vp8 = find ?P vp8"
    by (simp only: i2d_find_slot_find)
  show ?thesis
  proof (cases "find ?P vp8")
    case None
    then show ?thesis
      unfolding ossl_ml_dsa_i2d_prvkey_def using t c skb v slot by (simp add: Let_def)
  next
    case (Some f)
    then have "f \<in> set vp8" by (auto simp: find_Some_iff)
    then have "fits f (key_params key)" by (rule fit)
    then show ?thesis
      unfolding ossl_ml_dsa_i2d_prvkey_def fits_checks using t c skb v slot Some
      by (simp add: Let_def)
  qed
qed




subsubsection \<open>The seed-priv payload of ML-DSA-44\<close>

lemma params_44:
  "ossl_ml_dsa_params_get EVP_PKEY_ML_DSA_44
     = Some \<lparr>alg = ''ML-DSA-44'', evp_type_of = EVP_PKEY_ML_DSA_44, sk_len = 2560, pk_len = 1312\<rparr>"
  by (simp add: ossl_ml_dsa_params_get_def)

lemma seed_priv_44:
  "ml_dsa_44_p8fmt ! 0 = mk_fmt ''seed-priv'' 0x0a2a 0 0x30820a26 0x0420 6 0x20 0x04820a00 0x2a 0x0a00 0 0"
  by (simp add: ml_dsa_44_p8fmt_def)

lemma d2i_seed_priv_44:
  fixes provctx :: PROV_CTX
  assumes len: "length buf = 0x0a2a"
    and h0: "load_u32_be buf 0 = Some 0x30820a26"
    and h1: "load_u16_be buf 4 = Some 0x0420"
    and h2: "load_u32_be buf 38 = Some 0x04820a00"
    and v: "vp8_order ml_dsa_44_p8fmt (input_formats provctx) = Inr vp8"
    and f: "ml_dsa_44_p8fmt ! 0 \<in> set vp8"
  shows "d2i_find_slot (length buf) 0x30820a26 4 vp8 = Some (ml_dsa_44_p8fmt ! 0, 4)"
    and "d2i_seed (ml_dsa_44_p8fmt ! 0) buf 4 = Inr 38"
    and "d2i_priv (ml_dsa_44_p8fmt ! 0)
           \<lparr>alg = ''ML-DSA-44'', evp_type_of = EVP_PKEY_ML_DSA_44, sk_len = 2560, pk_len = 1312\<rparr> buf 38
           = Inr 0x0a2a"
    and "d2i_pub (ml_dsa_44_p8fmt ! 0)
           \<lparr>alg = ''ML-DSA-44'', evp_type_of = EVP_PKEY_ML_DSA_44, sk_len = 2560, pk_len = 1312\<rparr> 0x0a2a
           = Inr 0x0a2a"
    and "ossl_ml_dsa_d2i_PKCS8
           (Some \<lparr>pkey_alg = EVP_PKEY_ML_DSA_44, pkey_ptype_undef = True, pkey_buf = buf\<rparr>)
           EVP_PKEY_ML_DSA_44 provctx
         = Inr \<lparr>prekey_prefer = prefer_seed provctx, prekey_retain = retain_seed provctx,
                prekey_seed = Some (take 32 (drop 6 buf)), prekey_priv = Some (take 2560 (drop 42 buf))\<rparr>"
proof -
  let ?f = "ml_dsa_44_p8fmt ! 0"
  let ?v = "\<lparr>alg = ''ML-DSA-44'', evp_type_of = EVP_PKEY_ML_DSA_44, sk_len = 2560, pk_len = 1312\<rparr>"
  let ?p8 = "\<lparr>pkey_alg = EVP_PKEY_ML_DSA_44, pkey_ptype_undef = True, pkey_buf = buf\<rparr>"
  have v': "vp8_order (p8fmt \<lparr>spkifmt = ml_dsa_44_spkifmt, p8fmt = ml_dsa_44_p8fmt\<rparr>) (input_formats provctx) = Inr vp8"
    using v by simp
  have sub: "set vp8 \<subseteq> set (p8fmt \<lparr>spkifmt = ml_dsa_44_spkifmt, p8fmt = ml_dsa_44_p8fmt\<rparr>)"
    using codec_44 v' by (rule vp8_order_subset(1))
  have inj: "inj_on p8_bytes (set vp8)" using codec_44 sub by (rule inj_on_table)
  have acc: "accepts ?f (length buf) 0x30820a26"
    by (simp add: accepts_def len seed_priv_44 mk_fmt_def)
  from inj f acc have "d2i_find_slot (length buf) 0x30820a26 4 vp8 = Some (?f, 4 - int (p8_shift ?f))"
    by (rule d2i_find_slot_unique)
  then show slot: "d2i_find_slot (length buf) 0x30820a26 4 vp8 = Some (?f, 4)"
    by (simp add: seed_priv_44 mk_fmt_def)
  show s: "d2i_seed ?f buf 4 = Inr 38"
    by (simp add: d2i_seed_def seed_priv_44 mk_fmt_def h1 ML_DSA_SEED_BYTES_def)
  show p: "d2i_priv ?f ?v buf 38 = Inr 0x0a2a"
    by (simp add: d2i_priv_def seed_priv_44 mk_fmt_def h2)
  show u: "d2i_pub ?f ?v 0x0a2a = Inr 0x0a2a"
    by (simp add: d2i_pub_def seed_priv_44 mk_fmt_def)
  have fit: "fits ?f ?v" by (simp add: fits_def seed_priv_44 mk_fmt_def ML_DSA_SEED_BYTES_def)
  have fs: "d2i_field buf (seed_length ?f > 0) (seed_offset ?f) ML_DSA_SEED_BYTES = Inr (Some (take 32 (drop 6 buf)))"
    by (simp add: d2i_field_def mem_read_def seed_priv_44 mk_fmt_def ML_DSA_SEED_BYTES_def len)
  have fp: "d2i_field buf (priv_length ?f > 0) (priv_offset ?f) (sk_len ?v) = Inr (Some (take 2560 (drop 42 buf)))"
    by (simp add: d2i_field_def mem_read_def seed_priv_44 mk_fmt_def len)
  have fields: "d2i_fields ?f ?v buf 4 provctx
      = Inr \<lparr>prekey_prefer = prefer_seed provctx, prekey_retain = retain_seed provctx,
                prekey_seed = Some (take 32 (drop 6 buf)), prekey_priv = Some (take 2560 (drop 42 buf))\<rparr>"
    unfolding d2i_fields_def s err_bind_simps p u fs fp by (simp add: len)
  have "ossl_ml_dsa_d2i_PKCS8 (Some ?p8) EVP_PKEY_ML_DSA_44 provctx =
     (case d2i_find_slot (length (pkey_buf ?p8)) 0x30820a26 4 vp8 of
        None \<Rightarrow> Inl PROV_R_ML_DSA_NO_FORMAT
      | Some (f, pos) \<Rightarrow>
          if \<not> fits f ?v then Inl PROV_R_ML_DSA_NO_FORMAT
          else d2i_fields f ?v (pkey_buf ?p8) pos provctx)"
    using params_44 codec_44 _ v'
    by (rule d2i_unfold) (simp_all add: len h0)
  then show "ossl_ml_dsa_d2i_PKCS8 (Some ?p8) EVP_PKEY_ML_DSA_44 provctx
         = Inr \<lparr>prekey_prefer = prefer_seed provctx, prekey_retain = retain_seed provctx,
                prekey_seed = Some (take 32 (drop 6 buf)), prekey_priv = Some (take 2560 (drop 42 buf))\<rparr>"
    using slot fit fields by simp
qed

lemma seed_priv_example:
  fixes a b :: byte
  defines "buf \<equiv> [0x30, 0x82, 0x0a, 0x26, 0x04, 0x20] @ replicate 32 a @ [0x04, 0x82, 0x0a, 0x00] @ replicate 2560 b"
  shows "length buf = 0x0a2a"
    and "load_u32_be buf 0 = Some 0x30820a26"
    and "load_u16_be buf 4 = Some 0x0420"
    and "load_u32_be buf 38 = Some 0x04820a00"
    and "take 32 (drop 6 buf) = replicate 32 a"
    and "take 2560 (drop 42 buf) = replicate 2560 b"
    and "take 2560 (drop 38 buf) = [0x04, 0x82, 0x0a, 0x00] @ replicate 2556 b"
  by (simp_all add: buf_def load_u32_be_def load_u16_be_def nth_append)

subsubsection \<open>Decoding what the encoder wrote\<close>

lemma d2i_accepted:
  fixes provctx :: PROV_CTX
  assumes p: "ossl_ml_dsa_params_get t = Some v" and c: "ml_dsa_get_codec t = Some codec"
    and vp: "vp8_order (p8fmt codec) (input_formats provctx) = Inr vp8" and f: "f \<in> set vp8"
    and len: "length buf = p8_bytes f" and l4: "4 \<le> length buf"
    and m: "load_u32_be buf 0 = Some magic" and acc: "accepts f (length buf) magic"
    and s1: "d2i_seed f buf (4 - int (p8_shift f)) = Inr p1"
    and s2: "d2i_priv f v buf p1 = Inr p2"
    and s3: "d2i_pub f v p2 = Inr (int (length buf))"
    and fs: "d2i_field buf (seed_length f > 0) (seed_offset f) ML_DSA_SEED_BYTES = Inr sd"
    and fp: "d2i_field buf (priv_length f > 0) (priv_offset f) (sk_len v) = Inr pr"
  shows "ossl_ml_dsa_d2i_PKCS8 (Some \<lparr>pkey_alg = t, pkey_ptype_undef = True, pkey_buf = buf\<rparr>) t provctx
     = Inr \<lparr>prekey_prefer = prefer_seed provctx, prekey_retain = retain_seed provctx,
            prekey_seed = sd, prekey_priv = pr\<rparr>"
proof -
  let ?p8 = "\<lparr>pkey_alg = t, pkey_ptype_undef = True, pkey_buf = buf\<rparr>"
  have sub: "set vp8 \<subseteq> set (p8fmt codec)" using c vp by (rule vp8_order_subset(1))
  have inj: "inj_on p8_bytes (set vp8)" using c sub by (rule inj_on_table)
  from inj f acc have slot: "d2i_find_slot (length buf) magic 4 vp8 = Some (f, 4 - int (p8_shift f))"
    by (rule d2i_find_slot_unique)
  have "f \<in> set (p8fmt codec)" using sub f by (rule subsetD)
  with c p have fit: "fits f v" by (rule table_fits)
  have fields: "d2i_fields f v buf (4 - int (p8_shift f)) provctx
      = Inr \<lparr>prekey_prefer = prefer_seed provctx, prekey_retain = retain_seed provctx,
             prekey_seed = sd, prekey_priv = pr\<rparr>"
    unfolding d2i_fields_def s1 err_bind_simps s2 s3 fs fp by simp
  have "ossl_ml_dsa_d2i_PKCS8 (Some ?p8) t provctx =
     (case d2i_find_slot (length (pkey_buf ?p8)) magic 4 vp8 of
        None \<Rightarrow> Inl PROV_R_ML_DSA_NO_FORMAT
      | Some (f, pos) \<Rightarrow>
          if \<not> fits f v then Inl PROV_R_ML_DSA_NO_FORMAT
          else d2i_fields f v (pkey_buf ?p8) pos provctx)"
    using p c _ vp by (rule d2i_unfold) (simp_all add: l4 m)
  then show ?thesis using slot fit fields by simp
qed

lemma roundtrip_seed_priv:
  fixes cin :: PROV_CTX
  assumes p: "ossl_ml_dsa_params_get t = Some v" and c: "ml_dsa_get_codec t = Some codec"
    and vp: "vp8_order (p8fmt codec) (input_formats cin) = Inr vp8" and f: "f \<in> set vp8"
    and lay: "layout_seed_priv f v" and ls: "length seed = 32" and lk: "length sk = sk_len v"
  shows "\<exists>payload. i2d_payload f v (Some seed) (Some sk) pk = Inr payload \<and> length payload = p8_bytes f
     \<and> ossl_ml_dsa_d2i_PKCS8 (Some \<lparr>pkey_alg = t, pkey_ptype_undef = True, pkey_buf = payload\<rparr>) t cin
       = Inr \<lparr>prekey_prefer = prefer_seed cin, prekey_retain = retain_seed cin,
              prekey_seed = Some seed, prekey_priv = Some sk\<rparr>"
proof -
  define buf where "buf = store_u32_be (p8_magic f) @ store_u16_be (seed_magic f) @ seed
                     @ store_u32_be (priv_magic f) @ sk"
  note d = d2i_seed_priv_layout [OF lay ls lk buf_def]
  have sh: "4 - int (p8_shift f) = 4" using lay by (simp add: layout_seed_priv_def)
  have l4: "4 \<le> length buf" by (simp add: buf_def)
  have e: "i2d_payload f v (Some seed) (Some sk) pk = Inr buf"
    unfolding buf_def using lay ls lk by (rule i2d_payload_seed_priv)
  have "ossl_ml_dsa_d2i_PKCS8 (Some \<lparr>pkey_alg = t, pkey_ptype_undef = True, pkey_buf = buf\<rparr>) t cin
       = Inr \<lparr>prekey_prefer = prefer_seed cin, prekey_retain = retain_seed cin,
              prekey_seed = Some seed, prekey_priv = Some sk\<rparr>"
    using p c vp f d(1) l4 d(2,3)
  proof (rule d2i_accepted)
    show "d2i_seed f buf (4 - int (p8_shift f)) = Inr 38" unfolding sh by (rule d(4))
    show "d2i_priv f v buf 38 = Inr (int (p8_bytes f))" by (rule d(5))
    show "d2i_pub f v (int (p8_bytes f)) = Inr (int (length buf))" unfolding d(1) by (rule d(6))
    show "d2i_field buf (seed_length f > 0) (seed_offset f) ML_DSA_SEED_BYTES = Inr (Some seed)" by (rule d(7))
    show "d2i_field buf (priv_length f > 0) (priv_offset f) (sk_len v) = Inr (Some sk)" by (rule d(8))
  qed
  with e d(1) show ?thesis by blast
qed

lemma roundtrip_seed_only:
  fixes cin :: PROV_CTX
  assumes p: "ossl_ml_dsa_params_get t = Some v" and c: "ml_dsa_get_codec t = Some codec"
    and vp: "vp8_order (p8fmt codec) (input_formats cin) = Inr vp8" and f: "f \<in> set vp8"
    and lay: "layout_seed_only f" and ls: "length seed = 32"
  shows "\<exists>payload. i2d_payload f v (Some seed) sk pk = Inr payload \<and> length payload = p8_bytes f
     \<and> ossl_ml_dsa_d2i_PKCS8 (Some \<lparr>pkey_alg = t, pkey_ptype_undef = True, pkey_buf = payload\<rparr>) t cin
       = Inr \<lparr>prekey_prefer = prefer_seed cin, prekey_retain = retain_seed cin,
              prekey_seed = Some seed, prekey_priv = None\<rparr>"
proof -
  define buf where "buf = store_u16_be (ucast (p8_magic f)) @ seed"
  note d = d2i_seed_only_layout [OF lay ls buf_def]
  have sh: "4 - int (p8_shift f) = 2" using lay by (simp add: layout_seed_only_def)
  have l4: "4 \<le> length buf" by (simp add: buf_def ls)
  have e: "i2d_payload f v (Some seed) sk pk = Inr buf"
    unfolding buf_def using lay ls by (rule i2d_payload_seed_only)
  from d(2) obtain magic where m: "load_u32_be buf 0 = Some magic" and acc: "accepts f (length buf) magic"
    by blast
  have "ossl_ml_dsa_d2i_PKCS8 (Some \<lparr>pkey_alg = t, pkey_ptype_undef = True, pkey_buf = buf\<rparr>) t cin
       = Inr \<lparr>prekey_prefer = prefer_seed cin, prekey_retain = retain_seed cin,
              prekey_seed = Some seed, prekey_priv = None\<rparr>"
    using p c vp f d(1) l4 m acc
  proof (rule d2i_accepted)
    show "d2i_seed f buf (4 - int (p8_shift f)) = Inr (int (p8_bytes f))" unfolding sh by (rule d(3))
    show "d2i_priv f v buf (int (p8_bytes f)) = Inr (int (p8_bytes f))" by (rule d(4))
    show "d2i_pub f v (int (p8_bytes f)) = Inr (int (length buf))" unfolding d(1) by (rule d(5))
    show "d2i_field buf (seed_length f > 0) (seed_offset f) ML_DSA_SEED_BYTES = Inr (Some seed)" by (rule d(6))
    show "d2i_field buf (priv_length f > 0) (priv_offset f) (sk_len v) = Inr None" by (rule d(7))
  qed
  with e d(1) show ?thesis by blast
qed

lemma roundtrip_bare_seed:
  fixes cin :: PROV_CTX
  assumes p: "ossl_ml_dsa_params_get t = Some v" and c: "ml_dsa_get_codec t = Some codec"
    and vp: "vp8_order (p8fmt codec) (input_formats cin) = Inr vp8" and f: "f \<in> set vp8"
    and lay: "layout_bare_seed f" and ls: "length seed = 32"
  shows "\<exists>payload. i2d_payload f v (Some seed) sk pk = Inr payload \<and> length payload = p8_bytes f
     \<and> ossl_ml_dsa_d2i_PKCS8 (Some \<lparr>pkey_alg = t, pkey_ptype_undef = True, pkey_buf = payload\<rparr>) t cin
       = Inr \<lparr>prekey_prefer = prefer_seed cin, prekey_retain = retain_seed cin,
              prekey_seed = Some seed, prekey_priv = None\<rparr>"
proof -
  note d = d2i_bare_seed_layout [OF lay ls]
  have sh: "4 - int (p8_shift f) = 0" using lay by (simp add: layout_bare_seed_def)
  have l4: "4 \<le> length seed" by (simp add: ls)
  have e: "i2d_payload f v (Some seed) sk pk = Inr seed"
    using lay ls by (rule i2d_payload_bare_seed)
  from d(2) obtain magic where m: "load_u32_be seed 0 = Some magic" by blast
  have "ossl_ml_dsa_d2i_PKCS8 (Some \<lparr>pkey_alg = t, pkey_ptype_undef = True, pkey_buf = seed\<rparr>) t cin
       = Inr \<lparr>prekey_prefer = prefer_seed cin, prekey_retain = retain_seed cin,
              prekey_seed = Some seed, prekey_priv = None\<rparr>"
    using p c vp f d(1) l4 m d(3)
  proof (rule d2i_accepted)
    show "d2i_seed f seed (4 - int (p8_shift f)) = Inr (int (p8_bytes f))" unfolding sh by (rule d(4))
    show "d2i_priv f v seed (int (p8_bytes f)) = Inr (int (p8_bytes f))" by (rule d(5))
    show "d2i_pub f v (int (p8_bytes f)) = Inr (int (length seed))" unfolding d(1) by (rule d(6))
    show "d2i_field seed (seed_length f > 0) (seed_offset f) ML_DSA_SEED_BYTES = Inr (Some seed)" by (rule d(7))
    show "d2i_field seed (priv_length f > 0) (priv_offset f) (sk_len v) = Inr None" by (rule d(8))
  qed
  with e d(1) show ?thesis by blast
qed

lemma roundtrip_payload:
  fixes cin :: PROV_CTX
  assumes p: "ossl_ml_dsa_params_get t = Some v" and c: "ml_dsa_get_codec t = Some codec"
    and vp: "vp8_order (p8fmt codec) (input_formats cin) = Inr vp8" and f: "f \<in> set vp8"
    and s: "seed_length f \<noteq> 0" and ls: "length seed = 32" and lk: "length sk = sk_len v"
  shows "\<exists>payload. i2d_payload f v (Some seed) (Some sk) pk = Inr payload \<and> length payload = p8_bytes f
     \<and> ossl_ml_dsa_d2i_PKCS8 (Some \<lparr>pkey_alg = t, pkey_ptype_undef = True, pkey_buf = payload\<rparr>) t cin
       = Inr \<lparr>prekey_prefer = prefer_seed cin, prekey_retain = retain_seed cin,
              prekey_seed = Some seed, prekey_priv = (if priv_length f \<noteq> 0 then Some sk else None)\<rparr>"
proof -
  have "f \<in> set (p8fmt codec)" using vp8_order_subset(1) [OF c vp] f by (rule subsetD)
  with c p have "layout_seed_priv f v \<or> layout_seed_only f \<or> layout_bare_seed f"
    using s by (rule table_layout)
  then show ?thesis
  proof (elim disjE)
    assume lay: "layout_seed_priv f v"
    then have "priv_length f \<noteq> 0" by (simp add: layout_seed_priv_def)
    with roundtrip_seed_priv [OF p c vp f lay ls lk, of pk] show ?thesis by simp
  next
    assume lay: "layout_seed_only f"
    then have "priv_length f = 0" by (simp add: layout_seed_only_def)
    with roundtrip_seed_only [OF p c vp f lay ls, of "Some sk" pk] show ?thesis by simp
  next
    assume lay: "layout_bare_seed f"
    then have "priv_length f = 0" by (simp add: layout_bare_seed_def)
    with roundtrip_bare_seed [OF p c vp f lay ls, of "Some sk" pk] show ?thesis by simp
  qed
qed

lemma i2d_first:
  fixes cout :: PROV_CTX
  assumes p: "ossl_ml_dsa_params_get t = Some (key_params key)" and c: "ml_dsa_get_codec t = Some codec"
    and sd: "key_seed key = Some seed" and sk: "key_priv key = Some skb"
    and v: "vp8_order (p8fmt codec) (output_formats cout) = Inr (f # rest)"
  shows "ossl_ml_dsa_i2d_prvkey key True cout =
     err_bind (i2d_payload f (key_params key) (Some seed) (Some skb) (key_pub key))
       (\<lambda>buf. Inr (p8_bytes f, Some buf))"
proof -
  have "f \<in> set (p8fmt codec)" using vp8_order_subset(1) [OF c v] by simp
  with c p have fit: "fits f (key_params key)" by (rule table_fits)
  have sk': "key_priv key \<noteq> None" using sk by simp
  have "find (\<lambda>f. \<not> (seed_length f \<noteq> 0 \<and> key_seed key = None) \<and> fits f (key_params key)) (f # rest) = Some f"
    using fit sd by simp
  then show ?thesis
    unfolding i2d_select [OF p c sk' v] sd sk by simp
qed

lemma seed_formats:
  assumes c: "ml_dsa_get_codec t = Some codec" and f: "f \<in> set (p8fmt codec)"
  shows "(seed_length f \<noteq> 0) = (p8_name f \<in> {''seed-priv'', ''seed-only'', ''bare-seed''})"
    and "(seed_length f \<noteq> 0 \<and> priv_length f \<noteq> 0) = (p8_name f = ''seed-priv'')"
proof -
  have a: "list_all (\<lambda>f. (seed_length f \<noteq> 0) = (p8_name f \<in> {''seed-priv'', ''seed-only'', ''bare-seed''})
      \<and> (seed_length f \<noteq> 0 \<and> priv_length f \<noteq> 0) = (p8_name f = ''seed-priv'')) (p8fmt codec)"
    using codec_cases [OF c] by (elim disjE) (simp_all add: table_defs)
  then have "(seed_length f \<noteq> 0) = (p8_name f \<in> {''seed-priv'', ''seed-only'', ''bare-seed''})
      \<and> (seed_length f \<noteq> 0 \<and> priv_length f \<noteq> 0) = (p8_name f = ''seed-priv'')"
    using f unfolding list_all_iff by (rule bspec)
  then show "(seed_length f \<noteq> 0) = (p8_name f \<in> {''seed-priv'', ''seed-only'', ''bare-seed''})"
    and "(seed_length f \<noteq> 0 \<and> priv_length f \<noteq> 0) = (p8_name f = ''seed-priv'')"
    by blast+
qed

lemma bare_seed_44:
  "layout_bare_seed (ml_dsa_44_p8fmt ! 5)" "p8_name (ml_dsa_44_p8fmt ! 5) = ''bare-seed''"
  "p8_bytes (ml_dsa_44_p8fmt ! 5) = 32" "ml_dsa_44_p8fmt ! 5 \<in> set ml_dsa_44_p8fmt"
  "resolve_spec ml_dsa_44_p8fmt ''bare-seed'' = [ml_dsa_44_p8fmt ! 5]"
  by (simp_all add: layout_bare_seed_def table_defs resolve_eval)

lemma seed_only_44:
  "seed_length (ml_dsa_44_p8fmt ! 3) \<noteq> 0" "p8_name (ml_dsa_44_p8fmt ! 3) = ''seed-only''"
  "p8_bytes (ml_dsa_44_p8fmt ! 3) = 34" "ml_dsa_44_p8fmt ! 3 \<in> set ml_dsa_44_p8fmt"
  "resolve_spec ml_dsa_44_p8fmt ''seed-only'' = [ml_dsa_44_p8fmt ! 3]"
  by (simp_all add: table_defs resolve_eval)

subsection \<open>Private key decoding\<close>

text \<open>
  C9: within each parameter set the total payload lengths of the six format descriptors
  are pairwise distinct, so for every payload length at most one descriptor passes the
  length check; the slot found by the loop of the decoder is the same for any two lists
  of candidates of the table that hold the same descriptors, in whatever order, and
  private-key decode returns the same result under any two configurations that enable
  the same input formats in different orders.
\<close>

theorem C9_lengths_distinct_order_independent:
  assumes "ml_dsa_get_codec t = Some codec"
  shows "distinct (map p8_bytes (p8fmt codec))
     \<and> (\<forall>len. length (filter (\<lambda>f. p8_bytes f = len) (p8fmt codec)) \<le> 1)
     \<and> (\<forall>cs cs' len magic pos.
          set cs \<subseteq> set (p8fmt codec) \<and> set cs' = set cs \<longrightarrow>
          d2i_find_slot len magic pos cs' = d2i_find_slot len magic pos cs)
     \<and> (\<forall>p8 c c' vp8 vp8'.
          vp8_order (p8fmt codec) (input_formats c) = Inr vp8
          \<and> vp8_order (p8fmt codec) (input_formats c') = Inr vp8'
          \<and> set vp8' = set vp8
          \<and> prefer_seed c' = prefer_seed c \<and> retain_seed c' = retain_seed c \<longrightarrow>
          ossl_ml_dsa_d2i_PKCS8 p8 t c' = ossl_ml_dsa_d2i_PKCS8 p8 t c)"
proof (intro conjI allI impI)
  show d: "distinct (map p8_bytes (p8fmt codec))"
    using assms by (rule table_bytes_distinct)
  show "length (filter (\<lambda>f. p8_bytes f = len) (p8fmt codec)) \<le> 1" for len
    using d by (rule filter_distinct_key)
next
  fix cs cs' :: "ML_DSA_PKCS8_FMT list" and len magic pos
  assume a: "set cs \<subseteq> set (p8fmt codec) \<and> set cs' = set cs"
  then have "inj_on p8_bytes (set cs)" using inj_on_table [OF assms] by simp
  then show "d2i_find_slot len magic pos cs' = d2i_find_slot len magic pos cs"
    using a by (intro d2i_find_slot_order) simp_all
next
  fix p8 and c c' :: PROV_CTX and vp8 vp8'
  assume a: "vp8_order (p8fmt codec) (input_formats c) = Inr vp8
          \<and> vp8_order (p8fmt codec) (input_formats c') = Inr vp8'
          \<and> set vp8' = set vp8
          \<and> prefer_seed c' = prefer_seed c \<and> retain_seed c' = retain_seed c"
  then have v: "vp8_order (p8fmt codec) (input_formats c) = Inr vp8"
    and v': "vp8_order (p8fmt codec) (input_formats c') = Inr vp8'"
    and s: "set vp8' = set vp8" and fl: "prefer_seed c' = prefer_seed c" "retain_seed c' = retain_seed c"
    by simp_all
  have "inj_on p8_bytes (set vp8)"
    using assms vp8_order_subset(1) [OF assms v] by (rule inj_on_table)
  then have "d2i_find_slot len magic pos vp8' = d2i_find_slot len magic pos vp8" for len magic pos
    using s by (rule d2i_find_slot_order)
  with assms v v' show "ossl_ml_dsa_d2i_PKCS8 p8 t c' = ossl_ml_dsa_d2i_PKCS8 p8 t c"
    using fl by (rule d2i_same_slots)
qed

theorem C9_lengths_distinct_order_independent_witness:
  "ossl_ml_dsa_d2i_PKCS8
      (Some \<lparr>pkey_alg = EVP_PKEY_ML_DSA_44, pkey_ptype_undef = True,
             pkey_buf = [0x80, 0x20] @ replicate 32 7\<rparr>)
      EVP_PKEY_ML_DSA_44
      \<lparr>input_formats = Some ''bare-seed,seed-only'', output_formats = None,
       retain_seed = True, prefer_seed = True\<rparr>
   = ossl_ml_dsa_d2i_PKCS8
      (Some \<lparr>pkey_alg = EVP_PKEY_ML_DSA_44, pkey_ptype_undef = True,
             pkey_buf = [0x80, 0x20] @ replicate 32 7\<rparr>)
      EVP_PKEY_ML_DSA_44
      \<lparr>input_formats = Some ''seed-only,bare-seed'', output_formats = None,
       retain_seed = True, prefer_seed = True\<rparr>
   \<and> distinct (map p8_bytes ml_dsa_44_p8fmt)"
proof -
  let ?codec = "\<lparr>spkifmt = ml_dsa_44_spkifmt, p8fmt = ml_dsa_44_p8fmt\<rparr>"
  let ?c = "\<lparr>input_formats = Some ''seed-only,bare-seed'', output_formats = None,
       retain_seed = True, prefer_seed = True\<rparr>"
  let ?c' = "\<lparr>input_formats = Some ''bare-seed,seed-only'', output_formats = None,
       retain_seed = True, prefer_seed = True\<rparr>"
  let ?p8 = "Some \<lparr>pkey_alg = EVP_PKEY_ML_DSA_44, pkey_ptype_undef = True,
             pkey_buf = [0x80, 0x20] @ replicate 32 (7 :: byte)\<rparr>"
  note w = C9_lengths_distinct_order_independent [OF codec_44]
  have r: "resolve_spec ml_dsa_44_p8fmt ''seed-only,bare-seed'' = [ml_dsa_44_p8fmt ! 3, ml_dsa_44_p8fmt ! 5]"
    "resolve_spec ml_dsa_44_p8fmt ''bare-seed,seed-only'' = [ml_dsa_44_p8fmt ! 5, ml_dsa_44_p8fmt ! 3]"
    by (simp_all add: resolve_eval table_defs)
  have v: "vp8_order (p8fmt ?codec) (input_formats ?c) = Inr [ml_dsa_44_p8fmt ! 3, ml_dsa_44_p8fmt ! 5]"
    using vp8_order_resolve [OF table_facts [OF codec_44], of "''seed-only,bare-seed''"] r(1) by simp
  have v': "vp8_order (p8fmt ?codec) (input_formats ?c') = Inr [ml_dsa_44_p8fmt ! 5, ml_dsa_44_p8fmt ! 3]"
    using vp8_order_resolve [OF table_facts [OF codec_44], of "''bare-seed,seed-only''"] r(2) by simp
  have s: "set [ml_dsa_44_p8fmt ! 5, ml_dsa_44_p8fmt ! 3] = set [ml_dsa_44_p8fmt ! 3, ml_dsa_44_p8fmt ! 5]"
    by (simp add: insert_commute)
  have fl: "prefer_seed ?c' = prefer_seed ?c" "retain_seed ?c' = retain_seed ?c" by simp_all
  have 1: "ossl_ml_dsa_d2i_PKCS8 ?p8 EVP_PKEY_ML_DSA_44 ?c' = ossl_ml_dsa_d2i_PKCS8 ?p8 EVP_PKEY_ML_DSA_44 ?c"
    using w [THEN conjunct2, THEN conjunct2, THEN conjunct2, THEN spec, THEN spec, THEN spec,
        THEN spec, THEN spec, THEN mp, OF conjI [OF v conjI [OF v' conjI [OF s conjI [OF fl]]]]] .
  have 2: "distinct (map p8_bytes ml_dsa_44_p8fmt)"
    using w [THEN conjunct1] by simp
  show ?thesis using 1 2 by (rule conjI)
qed

text \<open>
  C2 as stated fails in its last part: upon acceptance the cursor is not \<open>p8_shift\<close>
  bytes from the start of the payload, it is \<open>4 - p8_shift\<close> bytes from it (the four
  bytes of the leading word, less the \<open>p8_shift\<close> bytes of it that are no header). For
  a \<open>seed-priv\<close> payload of ML-DSA-44 the descriptor has \<open>p8_shift = 0\<close> and the loop
  leaves the cursor at offset 4, from where the validation of the seed succeeds; from
  offset 0 it would fail.
\<close>

theorem C2_cursor_counterexample:
  "load_u32_be ([0x30, 0x82, 0x0a, 0x26, 0x04, 0x20] @ replicate 32 0x55
                @ [0x04, 0x82, 0x0a, 0x00] @ replicate 2560 0x66) 0 = Some 0x30820a26
   \<and> length ([0x30, 0x82, 0x0a, 0x26, 0x04, 0x20] @ replicate 32 (0x55 :: byte)
              @ [0x04, 0x82, 0x0a, 0x00] @ replicate 2560 0x66) = p8_bytes (ml_dsa_44_p8fmt ! 0)
   \<and> d2i_find_slot (length ([0x30, 0x82, 0x0a, 0x26, 0x04, 0x20] @ replicate 32 (0x55 :: byte)
              @ [0x04, 0x82, 0x0a, 0x00] @ replicate 2560 0x66)) 0x30820a26 4 ml_dsa_44_p8fmt
        = Some (ml_dsa_44_p8fmt ! 0, 4)
   \<and> p8_shift (ml_dsa_44_p8fmt ! 0) = 0
   \<and> (4 :: int) \<noteq> int (p8_shift (ml_dsa_44_p8fmt ! 0))
   \<and> d2i_seed (ml_dsa_44_p8fmt ! 0) ([0x30, 0x82, 0x0a, 0x26, 0x04, 0x20] @ replicate 32 0x55
                @ [0x04, 0x82, 0x0a, 0x00] @ replicate 2560 0x66) 4 = Inr 38
   \<and> d2i_seed (ml_dsa_44_p8fmt ! 0) ([0x30, 0x82, 0x0a, 0x26, 0x04, 0x20] @ replicate 32 0x55
                @ [0x04, 0x82, 0x0a, 0x00] @ replicate 2560 0x66) (int (p8_shift (ml_dsa_44_p8fmt ! 0)))
        = Inl NO_ERROR_RAISED"
proof -
  let ?buf = "[0x30, 0x82, 0x0a, 0x26, 0x04, 0x20] @ replicate 32 (0x55 :: byte)
              @ [0x04, 0x82, 0x0a, 0x00] @ replicate 2560 0x66"
  let ?ctx = "\<lparr>input_formats = None, output_formats = None, retain_seed = True, prefer_seed = True\<rparr>"
  note ex = seed_priv_example [of "0x55" "0x66"]
  have vi: "vp8_order ml_dsa_44_p8fmt (input_formats ?ctx) = Inr ml_dsa_44_p8fmt"
    by (simp add: vp8_order_default)
  have f: "ml_dsa_44_p8fmt ! 0 \<in> set ml_dsa_44_p8fmt" by (simp add: ml_dsa_44_p8fmt_def)
  note d = d2i_seed_priv_44 [OF ex(1,2,3,4) vi f]
  have sh: "p8_shift (ml_dsa_44_p8fmt ! 0) = 0" and b: "p8_bytes (ml_dsa_44_p8fmt ! 0) = 0x0a2a"
    by (simp_all add: seed_priv_44 mk_fmt_def)
  have 1: "length ?buf = p8_bytes (ml_dsa_44_p8fmt ! 0)" unfolding b by (rule ex(1))
  have 2: "(4 :: int) \<noteq> int (p8_shift (ml_dsa_44_p8fmt ! 0))" unfolding sh by simp
  have 3: "d2i_seed (ml_dsa_44_p8fmt ! 0) ?buf (int (p8_shift (ml_dsa_44_p8fmt ! 0))) = Inl NO_ERROR_RAISED"
    unfolding sh by (simp add: d2i_seed_def seed_priv_44 mk_fmt_def)
  show ?thesis
    by (intro conjI ex(2) 1 d(1) sh 2 d(2) 3)
qed

text \<open>
  C2 (amended): in private-key decode, for every enabled candidate format \<open>f\<close> of the
  table whose total length is the payload length, the loop accepts \<open>f\<close> exactly when
  \<open>p8_shift f = 4\<close> or the first four payload bytes, read as a big-endian word and
  shifted right by \<open>p8_shift f * 8\<close> bits, equal the outer magic of \<open>f\<close>; no other
  candidate can be accepted, and when \<open>f\<close> is rejected none is. Upon acceptance the
  read cursor is exactly \<open>4 - p8_shift f\<close> bytes from the start of the payload.
\<close>

theorem C2_accept_and_cursor:
  assumes "ml_dsa_get_codec t = Some codec"
    and "set vp8 \<subseteq> set (p8fmt codec)" and "f \<in> set vp8"
    and "length buf = p8_bytes f" and "load_u32_be buf 0 = Some magic"
  shows "(d2i_find_slot (length buf) magic 4 vp8 = Some (f, 4 - int (p8_shift f)))
          = (p8_shift f = 4 \<or> drop_bit (p8_shift f * 8) magic = p8_magic f)
       \<and> (d2i_find_slot (length buf) magic 4 vp8 = None)
          = (\<not> (p8_shift f = 4 \<or> drop_bit (p8_shift f * 8) magic = p8_magic f))
       \<and> (\<forall>g pos. d2i_find_slot (length buf) magic 4 vp8 = Some (g, pos) \<longrightarrow>
             g = f \<and> pos = 4 - int (p8_shift f))"
proof -
  have inj: "inj_on p8_bytes (set vp8)" using assms(1,2) by (rule inj_on_table)
  have acc: "accepts f (length buf) magic = (p8_shift f = 4 \<or> drop_bit (p8_shift f * 8) magic = p8_magic f)"
    using assms(4) by (simp add: accepts_def)
  have only: "g = f \<and> pos = 4 - int (p8_shift f)"
    if s: "d2i_find_slot (length buf) magic 4 vp8 = Some (g, pos)" for g pos
  proof -
    from d2i_find_slot_Some [OF s]
    have g: "g \<in> set vp8" and ga: "accepts g (length buf) magic" and p: "pos = 4 - int (p8_shift g)"
      by simp_all
    have "p8_bytes g = p8_bytes f" using ga assms(4) by (simp add: accepts_def)
    with inj have "g = f" using g assms(3) by (rule inj_onD)
    then show ?thesis using p by simp
  qed
  have 1: "(d2i_find_slot (length buf) magic 4 vp8 = Some (f, 4 - int (p8_shift f)))
          = accepts f (length buf) magic"
  proof
    assume "d2i_find_slot (length buf) magic 4 vp8 = Some (f, 4 - int (p8_shift f))"
    from d2i_find_slot_Some [OF this] show "accepts f (length buf) magic" by simp
  next
    assume "accepts f (length buf) magic"
    with inj assms(3) show "d2i_find_slot (length buf) magic 4 vp8 = Some (f, 4 - int (p8_shift f))"
      by (rule d2i_find_slot_unique)
  qed
  have 2: "(d2i_find_slot (length buf) magic 4 vp8 = None) = (\<not> accepts f (length buf) magic)"
  proof
    assume "d2i_find_slot (length buf) magic 4 vp8 = None"
    then have "\<forall>f\<in>set vp8. \<not> accepts f (length buf) magic" unfolding d2i_find_slot_None .
    then show "\<not> accepts f (length buf) magic" using assms(3) by (rule bspec)
  next
    assume n: "\<not> accepts f (length buf) magic"
    show "d2i_find_slot (length buf) magic 4 vp8 = None"
    proof (cases "d2i_find_slot (length buf) magic 4 vp8")
      case None
      then show ?thesis .
    next
      case (Some gp)
      obtain g pos where gp: "gp = (g, pos)" by (cases gp)
      from Some have s: "d2i_find_slot (length buf) magic 4 vp8 = Some (g, pos)" by (simp only: gp)
      from only [OF s] d2i_find_slot_Some [OF s] n show ?thesis by simp
    qed
  qed
  show ?thesis
    using 1 2 only unfolding acc by blast
qed

theorem C2_accept_and_cursor_witness:
  "d2i_find_slot (length (replicate 32 (7 :: byte))) 0x07070707 4 [ml_dsa_44_p8fmt ! 3, ml_dsa_44_p8fmt ! 5]
     = Some (ml_dsa_44_p8fmt ! 5, 0)
   \<and> p8_shift (ml_dsa_44_p8fmt ! 5) = 4"
proof -
  let ?f = "ml_dsa_44_p8fmt ! 5"
  let ?buf = "replicate 32 (7 :: byte)"
  let ?vp8 = "[ml_dsa_44_p8fmt ! 3, ml_dsa_44_p8fmt ! 5]"
  have a: "set ?vp8 \<subseteq> set (p8fmt \<lparr>spkifmt = ml_dsa_44_spkifmt, p8fmt = ml_dsa_44_p8fmt\<rparr>)"
    by (simp add: table_defs)
  have b: "?f \<in> set ?vp8" by simp
  have c: "length ?buf = p8_bytes ?f"
    by (simp add: table_defs)
  have d: "load_u32_be ?buf 0 = Some 0x07070707"
    by (simp add: load_u32_be_def)
  have sh: "p8_shift ?f = 4" by (simp add: table_defs)
  have "(d2i_find_slot (length ?buf) 0x07070707 4 ?vp8 = Some (?f, 4 - int (p8_shift ?f)))
      = (p8_shift ?f = 4 \<or> drop_bit (p8_shift ?f * 8) (0x07070707 :: 32 word) = p8_magic ?f)"
    using C2_accept_and_cursor [OF codec_44 a b c d] by (rule conjunct1)
  moreover have "p8_shift ?f = 4 \<or> drop_bit (p8_shift ?f * 8) (0x07070707 :: 32 word) = p8_magic ?f"
    using sh by (rule disjI1)
  ultimately have "d2i_find_slot (length ?buf) 0x07070707 4 ?vp8 = Some (?f, 4 - int (p8_shift ?f))"
    by (rule iffD2)
  moreover have "4 - int (p8_shift ?f) = 0" unfolding sh by simp
  ultimately have "d2i_find_slot (length ?buf) 0x07070707 4 ?vp8 = Some (?f, 0)" by (simp only:)
  then show ?thesis using sh by (rule conjI)
qed




subsection \<open>Private key encoding\<close>



subsection \<open>Round trip and the seed-priv layout\<close>

text \<open>
  C1 as stated fails for the formats that hold the seed alone. The ML-DSA-44 key with
  the seed \<open>0x11\<close> \<open>\<times>\<close> 32 and the private key \<open>0x22\<close> \<open>\<times>\<close> 2560, encoded with
  \<open>bare-seed\<close> as the enabled output format, gives the 32 bytes of the seed; decoding
  them recovers the seed and no private key bytes.
\<close>

theorem C1_priv_not_recovered_counterexample:
  "ossl_ml_dsa_i2d_prvkey
      \<lparr>key_params = \<lparr>alg = ''ML-DSA-44'', evp_type_of = EVP_PKEY_ML_DSA_44, sk_len = 2560, pk_len = 1312\<rparr>,
       key_seed = Some (replicate 32 0x11), key_priv = Some (replicate 2560 0x22), key_pub = None\<rparr> True
      \<lparr>input_formats = None, output_formats = Some ''bare-seed'', retain_seed = True, prefer_seed = True\<rparr>
     = Inr (32, Some (replicate 32 0x11))
   \<and> ossl_ml_dsa_d2i_PKCS8
      (Some \<lparr>pkey_alg = EVP_PKEY_ML_DSA_44, pkey_ptype_undef = True, pkey_buf = replicate 32 0x11\<rparr>)
      EVP_PKEY_ML_DSA_44
      \<lparr>input_formats = None, output_formats = Some ''bare-seed'', retain_seed = True, prefer_seed = True\<rparr>
     = Inr \<lparr>prekey_prefer = True, prekey_retain = True,
            prekey_seed = Some (replicate 32 0x11), prekey_priv = None\<rparr>
   \<and> prekey_priv \<lparr>prekey_prefer = True, prekey_retain = True,
            prekey_seed = Some (replicate 32 0x11), prekey_priv = None\<rparr>
       \<noteq> Some (replicate 2560 (0x22 :: byte))
   \<and> vp8_order ml_dsa_44_p8fmt (Some ''bare-seed'') = Inr [ml_dsa_44_p8fmt ! 5]
   \<and> p8_name (ml_dsa_44_p8fmt ! 5) = ''bare-seed''"
proof -
  let ?v = "\<lparr>alg = ''ML-DSA-44'', evp_type_of = EVP_PKEY_ML_DSA_44, sk_len = 2560, pk_len = 1312\<rparr>"
  let ?key = "\<lparr>key_params = ?v, key_seed = Some (replicate 32 (0x11 :: byte)),
       key_priv = Some (replicate 2560 (0x22 :: byte)), key_pub = None\<rparr>"
  let ?ctx = "\<lparr>input_formats = None, output_formats = Some ''bare-seed'', retain_seed = True, prefer_seed = True\<rparr>"
  let ?codec = "\<lparr>spkifmt = ml_dsa_44_spkifmt, p8fmt = ml_dsa_44_p8fmt\<rparr>"
  have p: "ossl_ml_dsa_params_get EVP_PKEY_ML_DSA_44 = Some (key_params ?key)"
    by (simp add: ossl_ml_dsa_params_get_def)
  have vo: "vp8_order ml_dsa_44_p8fmt (Some ''bare-seed'') = Inr [ml_dsa_44_p8fmt ! 5]"
    using vp8_order_resolve [OF table_facts [OF codec_44], of "''bare-seed''"] bare_seed_44(5) by simp
  then have vo': "vp8_order (p8fmt ?codec) (output_formats ?ctx) = Inr [ml_dsa_44_p8fmt ! 5]" by simp
  have vi: "vp8_order (p8fmt ?codec) (input_formats ?ctx) = Inr ml_dsa_44_p8fmt"
    by (simp add: vp8_order_default)
  have ls: "length (replicate 32 (0x11 :: byte)) = 32" by simp
  have e: "i2d_payload (ml_dsa_44_p8fmt ! 5) ?v (Some (replicate 32 0x11)) sk pk = Inr (replicate 32 0x11)" for sk pk
    using bare_seed_44(1) ls by (rule i2d_payload_bare_seed)
  have "ossl_ml_dsa_i2d_prvkey ?key True ?ctx =
     err_bind (i2d_payload (ml_dsa_44_p8fmt ! 5) (key_params ?key) (Some (replicate 32 0x11))
        (Some (replicate 2560 0x22)) (key_pub ?key))
       (\<lambda>buf. Inr (p8_bytes (ml_dsa_44_p8fmt ! 5), Some buf))"
    using p codec_44 _ _ vo' by (rule i2d_first) simp_all
  then have 1: "ossl_ml_dsa_i2d_prvkey ?key True ?ctx = Inr (32, Some (replicate 32 0x11))"
    by (simp add: e bare_seed_44(3))
  from roundtrip_bare_seed [OF params_44 codec_44 vi bare_seed_44(4,1) ls, of None None]
  have 2: "ossl_ml_dsa_d2i_PKCS8
      (Some \<lparr>pkey_alg = EVP_PKEY_ML_DSA_44, pkey_ptype_undef = True, pkey_buf = replicate 32 0x11\<rparr>)
      EVP_PKEY_ML_DSA_44 ?ctx
     = Inr \<lparr>prekey_prefer = True, prekey_retain = True,
            prekey_seed = Some (replicate 32 0x11), prekey_priv = None\<rparr>"
    unfolding e by simp
  show ?thesis
    using 1 2 vo bare_seed_44(2) by simp
qed

text \<open>
  C1 (amended): for every parameter set (ML-DSA-44/65/87), every key that holds a seed
  and a private key of the sizes of the parameter set, and every format \<open>f\<close> that
  carries a seed (\<open>seed-priv\<close>, \<open>seed-only\<close>, \<open>bare-seed\<close>): if \<open>f\<close> is the first
  enabled output format, private-key encode returns a payload of \<open>p8_bytes f\<close> bytes,
  and private-key decode of that payload, with \<open>f\<close> among the enabled input formats,
  recovers exactly the original seed bytes; it recovers exactly the original private-key
  bytes when \<open>f\<close> is \<open>seed-priv\<close>, and no private-key bytes for \<open>seed-only\<close> and
  \<open>bare-seed\<close>, which do not hold them.
\<close>

theorem C1_roundtrip_seed_formats:
  fixes cin cout :: PROV_CTX
  assumes "ossl_ml_dsa_params_get t = Some (key_params key)"
    and "ml_dsa_get_codec t = Some codec"
    and "key_seed key = Some seed" and "length seed = ML_DSA_SEED_BYTES"
    and "key_priv key = Some sk" and "length sk = sk_len (key_params key)"
    and "vp8_order (p8fmt codec) (output_formats cout) = Inr (f # rest)"
    and "seed_length f \<noteq> 0"
    and "vp8_order (p8fmt codec) (input_formats cin) = Inr vp8" and "f \<in> set vp8"
  shows "\<exists>payload.
      ossl_ml_dsa_i2d_prvkey key True cout = Inr (p8_bytes f, Some payload)
    \<and> length payload = p8_bytes f
    \<and> ossl_ml_dsa_d2i_PKCS8 (Some \<lparr>pkey_alg = t, pkey_ptype_undef = True, pkey_buf = payload\<rparr>) t cin
       = Inr \<lparr>prekey_prefer = prefer_seed cin, prekey_retain = retain_seed cin,
              prekey_seed = Some seed,
              prekey_priv = (if p8_name f = ''seed-priv'' then Some sk else None)\<rparr>
    \<and> p8_name f \<in> {''seed-priv'', ''seed-only'', ''bare-seed''}"
proof -
  have ft: "f \<in> set (p8fmt codec)" using vp8_order_subset(1) [OF assms(2,9)] assms(10) by (rule subsetD)
  note n = seed_formats [OF assms(2) ft]
  have ls: "length seed = 32" using assms(4) by (simp add: ML_DSA_SEED_BYTES_def)
  from roundtrip_payload [OF assms(1,2,9,10,8) ls assms(6), of "key_pub key"]
  obtain payload where e: "i2d_payload f (key_params key) (Some seed) (Some sk) (key_pub key) = Inr payload"
    and l: "length payload = p8_bytes f"
    and d: "ossl_ml_dsa_d2i_PKCS8 (Some \<lparr>pkey_alg = t, pkey_ptype_undef = True, pkey_buf = payload\<rparr>) t cin
       = Inr \<lparr>prekey_prefer = prefer_seed cin, prekey_retain = retain_seed cin,
              prekey_seed = Some seed, prekey_priv = (if priv_length f \<noteq> 0 then Some sk else None)\<rparr>"
    by blast
  have pl: "(priv_length f \<noteq> 0) = (p8_name f = ''seed-priv'')"
    using n(2) assms(8) by simp
  have "ossl_ml_dsa_i2d_prvkey key True cout = Inr (p8_bytes f, Some payload)"
    unfolding i2d_first [OF assms(1,2,3,5,7)] e by simp
  moreover have "p8_name f \<in> {''seed-priv'', ''seed-only'', ''bare-seed''}"
    using n(1) assms(8) by simp
  ultimately show ?thesis using l d unfolding pl by blast
qed

theorem C1_roundtrip_seed_formats_witness:
  "\<exists>payload.
      ossl_ml_dsa_i2d_prvkey
        \<lparr>key_params = \<lparr>alg = ''ML-DSA-44'', evp_type_of = EVP_PKEY_ML_DSA_44, sk_len = 2560, pk_len = 1312\<rparr>,
         key_seed = Some (replicate 32 0x11), key_priv = Some (replicate 2560 0x22), key_pub = None\<rparr> True
        \<lparr>input_formats = None, output_formats = Some ''seed-only'', retain_seed = True, prefer_seed = False\<rparr>
       = Inr (34, Some payload)
    \<and> ossl_ml_dsa_d2i_PKCS8
        (Some \<lparr>pkey_alg = EVP_PKEY_ML_DSA_44, pkey_ptype_undef = True, pkey_buf = payload\<rparr>)
        EVP_PKEY_ML_DSA_44
        \<lparr>input_formats = None, output_formats = Some ''seed-only'', retain_seed = True, prefer_seed = False\<rparr>
       = Inr \<lparr>prekey_prefer = False, prekey_retain = True,
              prekey_seed = Some (replicate 32 0x11), prekey_priv = None\<rparr>"
proof -
  let ?v = "\<lparr>alg = ''ML-DSA-44'', evp_type_of = EVP_PKEY_ML_DSA_44, sk_len = 2560, pk_len = 1312\<rparr>"
  let ?key = "\<lparr>key_params = ?v, key_seed = Some (replicate 32 (0x11 :: byte)),
       key_priv = Some (replicate 2560 (0x22 :: byte)), key_pub = None\<rparr>"
  let ?ctx = "\<lparr>input_formats = None, output_formats = Some ''seed-only'', retain_seed = True, prefer_seed = False\<rparr>"
  let ?codec = "\<lparr>spkifmt = ml_dsa_44_spkifmt, p8fmt = ml_dsa_44_p8fmt\<rparr>"
  have p: "ossl_ml_dsa_params_get EVP_PKEY_ML_DSA_44 = Some (key_params ?key)"
    by (simp add: ossl_ml_dsa_params_get_def)
  have vo: "vp8_order (p8fmt ?codec) (output_formats ?ctx) = Inr (ml_dsa_44_p8fmt ! 3 # [])"
    using vp8_order_resolve [OF table_facts [OF codec_44], of "''seed-only''"] seed_only_44(5) by simp
  have vi: "vp8_order (p8fmt ?codec) (input_formats ?ctx) = Inr ml_dsa_44_p8fmt"
    by (simp add: vp8_order_default)
  have a: "key_seed ?key = Some (replicate 32 0x11)" "length (replicate 32 (0x11 :: byte)) = ML_DSA_SEED_BYTES"
    "key_priv ?key = Some (replicate 2560 0x22)" "length (replicate 2560 (0x22 :: byte)) = sk_len (key_params ?key)"
    by (simp_all add: ML_DSA_SEED_BYTES_def)
  from C1_roundtrip_seed_formats [OF p codec_44 a vo seed_only_44(1) vi seed_only_44(4)]
  obtain payload where e: "ossl_ml_dsa_i2d_prvkey ?key True ?ctx = Inr (p8_bytes (ml_dsa_44_p8fmt ! 3), Some payload)"
    and d: "ossl_ml_dsa_d2i_PKCS8
        (Some \<lparr>pkey_alg = EVP_PKEY_ML_DSA_44, pkey_ptype_undef = True, pkey_buf = payload\<rparr>)
        EVP_PKEY_ML_DSA_44 ?ctx
       = Inr \<lparr>prekey_prefer = prefer_seed ?ctx, prekey_retain = retain_seed ?ctx,
              prekey_seed = Some (replicate 32 0x11),
              prekey_priv = (if p8_name (ml_dsa_44_p8fmt ! 3) = ''seed-priv''
                             then Some (replicate 2560 0x22) else None)\<rparr>"
    by blast
  have 1: "ossl_ml_dsa_i2d_prvkey ?key True ?ctx = Inr (34, Some payload)"
    using e unfolding seed_only_44(3) .
  have 2: "ossl_ml_dsa_d2i_PKCS8
        (Some \<lparr>pkey_alg = EVP_PKEY_ML_DSA_44, pkey_ptype_undef = True, pkey_buf = payload\<rparr>)
        EVP_PKEY_ML_DSA_44 ?ctx
       = Inr \<lparr>prekey_prefer = False, prekey_retain = True,
              prekey_seed = Some (replicate 32 0x11), prekey_priv = None\<rparr>"
    using d unfolding seed_only_44(2) by simp
  show ?thesis
    using 1 2 by (intro exI [of _ payload] conjI)
qed

text \<open>
  C3 as stated fails: the private key does not begin right after the seed. In the
  \<open>seed-priv\<close> payload of ML-DSA-44 the seed is at offsets 6 to 37, the four bytes at
  offsets 38 to 41 are the header \<open>04 82 0a 00\<close> of the private key, and the private key
  is at offsets 42 to \<open>0x0a29\<close>. For the payload with the seed \<open>0x11\<close> \<open>\<times>\<close> 32 and
  the private key \<open>0x22\<close> \<open>\<times>\<close> 2560 the decoder recovers these, not the 2560 bytes
  that follow the seed; a private key of 2560 bytes right after the seed would end at
  offset \<open>0x0a26\<close>.
\<close>

theorem C3_priv_offset_counterexample:
  "ossl_ml_dsa_d2i_PKCS8
      (Some \<lparr>pkey_alg = EVP_PKEY_ML_DSA_44, pkey_ptype_undef = True,
             pkey_buf = [0x30, 0x82, 0x0a, 0x26, 0x04, 0x20] @ replicate 32 0x11
                        @ [0x04, 0x82, 0x0a, 0x00] @ replicate 2560 0x22\<rparr>)
      EVP_PKEY_ML_DSA_44
      \<lparr>input_formats = None, output_formats = None, retain_seed = True, prefer_seed = True\<rparr>
     = Inr \<lparr>prekey_prefer = True, prekey_retain = True,
            prekey_seed = Some (replicate 32 0x11), prekey_priv = Some (replicate 2560 0x22)\<rparr>
   \<and> length ([0x30, 0x82, 0x0a, 0x26, 0x04, 0x20] @ replicate 32 (0x11 :: byte)
              @ [0x04, 0x82, 0x0a, 0x00] @ replicate 2560 0x22) = 0x0a2a
   \<and> take 32 (drop 6 ([0x30, 0x82, 0x0a, 0x26, 0x04, 0x20] @ replicate 32 (0x11 :: byte)
              @ [0x04, 0x82, 0x0a, 0x00] @ replicate 2560 0x22)) = replicate 32 0x11
   \<and> take 2560 (drop (6 + 32) ([0x30, 0x82, 0x0a, 0x26, 0x04, 0x20] @ replicate 32 (0x11 :: byte)
              @ [0x04, 0x82, 0x0a, 0x00] @ replicate 2560 0x22))
       = [0x04, 0x82, 0x0a, 0x00] @ replicate 2556 0x22
   \<and> take 2560 (drop (6 + 32) ([0x30, 0x82, 0x0a, 0x26, 0x04, 0x20] @ replicate 32 (0x11 :: byte)
              @ [0x04, 0x82, 0x0a, 0x00] @ replicate 2560 0x22))
       \<noteq> replicate 2560 0x22
   \<and> (6 :: nat) + 32 + 2560 \<noteq> 0x0a2a"
proof -
  let ?buf = "[0x30, 0x82, 0x0a, 0x26, 0x04, 0x20] @ replicate 32 (0x11 :: byte)
              @ [0x04, 0x82, 0x0a, 0x00] @ replicate 2560 0x22"
  let ?ctx = "\<lparr>input_formats = None, output_formats = None, retain_seed = True, prefer_seed = True\<rparr>"
  note ex = seed_priv_example [of "0x11" "0x22"]
  have vi: "vp8_order ml_dsa_44_p8fmt (input_formats ?ctx) = Inr ml_dsa_44_p8fmt"
    by (simp add: vp8_order_default)
  have f: "ml_dsa_44_p8fmt ! 0 \<in> set ml_dsa_44_p8fmt" by (simp add: ml_dsa_44_p8fmt_def)
  have 1: "ossl_ml_dsa_d2i_PKCS8
      (Some \<lparr>pkey_alg = EVP_PKEY_ML_DSA_44, pkey_ptype_undef = True, pkey_buf = ?buf\<rparr>)
      EVP_PKEY_ML_DSA_44 ?ctx
     = Inr \<lparr>prekey_prefer = True, prekey_retain = True,
            prekey_seed = Some (replicate 32 0x11), prekey_priv = Some (replicate 2560 0x22)\<rparr>"
    unfolding d2i_seed_priv_44(5) [OF ex(1,2,3,4) vi f] ex(5,6) by simp
  have 2: "take 2560 (drop (6 + 32) ?buf) = [0x04, 0x82, 0x0a, 0x00] @ replicate 2556 0x22"
    using ex(7) by simp
  have 3: "take 2560 (drop (6 + 32) ?buf) \<noteq> replicate 2560 0x22"
    unfolding 2
  proof
    assume "[0x04, 0x82, 0x0a, 0x00] @ replicate 2556 0x22 = replicate 2560 (0x22 :: byte)"
    then have "hd ([0x04, 0x82, 0x0a, 0x00] @ replicate 2556 0x22) = hd (replicate 2560 (0x22 :: byte))"
      by (rule arg_cong)
    then show False by simp
  qed
  have 4: "(6 :: nat) + 32 + 2560 \<noteq> 0x0a2a" by simp
  show ?thesis
    by (intro conjI 1 2 3 4 ex(1) ex(5))
qed

text \<open>
  C3 (amended): for ML-DSA-44 in the \<open>seed-priv\<close> format, private-key decode of a
  well-formed payload of length \<open>0x0a2a\<close> (the outer header \<open>30 82 0a 26\<close>, the seed
  header \<open>04 20\<close> at offset 4 and the private key header \<open>04 82 0a 00\<close> at offset 38)
  recovers the 32-byte seed that starts at payload offset 6 and the 2560-byte private
  key that starts at payload offset 42, after the four bytes of its own header that
  follow the seed. The cursor starts at offset 4, is at offset 38 after the seed and
  ends at offset \<open>0x0a2a\<close>, the end of the payload.
\<close>

theorem C3_seed_priv_44_decode:
  fixes provctx :: PROV_CTX
  assumes "length buf = 0x0a2a"
    and "load_u32_be buf 0 = Some 0x30820a26"
    and "load_u16_be buf 4 = Some 0x0420"
    and "load_u32_be buf 38 = Some 0x04820a00"
    and "vp8_order ml_dsa_44_p8fmt (input_formats provctx) = Inr vp8"
    and "ml_dsa_44_p8fmt ! 0 \<in> set vp8"
  shows "ossl_ml_dsa_d2i_PKCS8
           (Some \<lparr>pkey_alg = EVP_PKEY_ML_DSA_44, pkey_ptype_undef = True, pkey_buf = buf\<rparr>)
           EVP_PKEY_ML_DSA_44 provctx
         = Inr \<lparr>prekey_prefer = prefer_seed provctx, prekey_retain = retain_seed provctx,
                prekey_seed = Some (take 32 (drop 6 buf)), prekey_priv = Some (take 2560 (drop 42 buf))\<rparr>
     \<and> length (take 32 (drop 6 buf)) = 32 \<and> length (take 2560 (drop 42 buf)) = 2560
     \<and> p8_name (ml_dsa_44_p8fmt ! 0) = ''seed-priv''
     \<and> d2i_find_slot (length buf) 0x30820a26 4 vp8 = Some (ml_dsa_44_p8fmt ! 0, 4)
     \<and> d2i_seed (ml_dsa_44_p8fmt ! 0) buf 4 = Inr 38
     \<and> d2i_priv (ml_dsa_44_p8fmt ! 0)
           \<lparr>alg = ''ML-DSA-44'', evp_type_of = EVP_PKEY_ML_DSA_44, sk_len = 2560, pk_len = 1312\<rparr> buf 38
           = Inr 0x0a2a
     \<and> d2i_pub (ml_dsa_44_p8fmt ! 0)
           \<lparr>alg = ''ML-DSA-44'', evp_type_of = EVP_PKEY_ML_DSA_44, sk_len = 2560, pk_len = 1312\<rparr> 0x0a2a
           = Inr 0x0a2a
     \<and> int (length buf) = 0x0a2a"
proof -
  note d = d2i_seed_priv_44 [OF assms]
  have l: "length (take 32 (drop 6 buf)) = 32" "length (take 2560 (drop 42 buf)) = 2560"
    "int (length buf) = 0x0a2a"
    by (simp_all add: assms(1))
  have n: "p8_name (ml_dsa_44_p8fmt ! 0) = ''seed-priv''" by (simp add: table_defs)
  show ?thesis
    by (intro conjI d l n)
qed

theorem C3_seed_priv_44_decode_witness:
  "ossl_ml_dsa_d2i_PKCS8
      (Some \<lparr>pkey_alg = EVP_PKEY_ML_DSA_44, pkey_ptype_undef = True,
             pkey_buf = [0x30, 0x82, 0x0a, 0x26, 0x04, 0x20] @ replicate 32 0x33
                        @ [0x04, 0x82, 0x0a, 0x00] @ replicate 2560 0x44\<rparr>)
      EVP_PKEY_ML_DSA_44
      \<lparr>input_formats = Some ''seed-priv'', output_formats = None, retain_seed = False, prefer_seed = True\<rparr>
     = Inr \<lparr>prekey_prefer = True, prekey_retain = False,
            prekey_seed = Some (replicate 32 0x33), prekey_priv = Some (replicate 2560 0x44)\<rparr>"
proof -
  let ?buf = "[0x30, 0x82, 0x0a, 0x26, 0x04, 0x20] @ replicate 32 (0x33 :: byte)
              @ [0x04, 0x82, 0x0a, 0x00] @ replicate 2560 0x44"
  let ?ctx = "\<lparr>input_formats = Some ''seed-priv'', output_formats = None, retain_seed = False, prefer_seed = True\<rparr>"
  note ex = seed_priv_example [of "0x33" "0x44"]
  have r: "resolve_spec ml_dsa_44_p8fmt ''seed-priv'' = [ml_dsa_44_p8fmt ! 0]"
    by (simp add: resolve_eval table_defs)
  have vi: "vp8_order ml_dsa_44_p8fmt (input_formats ?ctx) = Inr [ml_dsa_44_p8fmt ! 0]"
    using vp8_order_resolve [OF table_facts [OF codec_44], of "''seed-priv''"] r by simp
  have f: "ml_dsa_44_p8fmt ! 0 \<in> set [ml_dsa_44_p8fmt ! 0]" by simp
  show ?thesis
    using C3_seed_priv_44_decode [OF ex(1,2,3,4) vi f, THEN conjunct1]
    unfolding ex(5,6) by simp
qed

subsection \<open>Public key encoding\<close>

text \<open>
  C4 as stated fails: the encoder does not prepend the 22-byte SPKI prefix. For the
  ML-DSA-44 key whose 1312 public bytes are all zero the result is those 1312 bytes,
  not the 1334 bytes of prefix and key.
\<close>

theorem C4_i2d_pubkey_prefix_counterexample:
  "ossl_ml_dsa_i2d_pubkey
     \<lparr>key_params = the (ossl_ml_dsa_params_get EVP_PKEY_ML_DSA_44),
      key_seed = None, key_priv = None, key_pub = Some (replicate 1312 0)\<rparr> True
   \<noteq> Inr (ML_DSA_SPKI_OVERHEAD + 1312,
          Some (asn1_prefix ml_dsa_44_spkifmt @ replicate 1312 0))"
  by (simp add: ossl_ml_dsa_i2d_pubkey_def ossl_ml_dsa_params_get_def mem_read_def
      ML_DSA_SPKI_OVERHEAD_def err_bind_def of_option_def)

text \<open>
  C4 (amended): for every key, public-key encode returns exactly the raw public-key bytes
  of the key (\<open>pk_len\<close> of them, with no prefix) when public bytes are present, or only
  their length when no buffer is asked for; it fails with \<open>PROV_R_NOT_A_PUBLIC_KEY\<close>
  when the key holds no public bytes.
\<close>

theorem C4_i2d_pubkey_raw:
  "(key_pub key = None \<longrightarrow> ossl_ml_dsa_i2d_pubkey key out = Inl PROV_R_NOT_A_PUBLIC_KEY) \<and>
   (\<forall>pk. key_pub key = Some pk \<and> length pk = pk_len (key_params key) \<longrightarrow>
      ossl_ml_dsa_i2d_pubkey key out =
        Inr (pk_len (key_params key), if out then Some pk else None))"
  by (simp add: ossl_ml_dsa_i2d_pubkey_def mem_read_def err_bind_def of_option_def)

theorem C4_i2d_pubkey_raw_witness:
  "ossl_ml_dsa_i2d_pubkey
     \<lparr>key_params = the (ossl_ml_dsa_params_get EVP_PKEY_ML_DSA_44),
      key_seed = None, key_priv = None, key_pub = None\<rparr> True = Inl PROV_R_NOT_A_PUBLIC_KEY \<and>
   ossl_ml_dsa_i2d_pubkey
     \<lparr>key_params = the (ossl_ml_dsa_params_get EVP_PKEY_ML_DSA_44),
      key_seed = None, key_priv = None, key_pub = Some (replicate 1312 7)\<rparr> True
     = Inr (1312, Some (replicate 1312 7))"
  using C4_i2d_pubkey_raw [of "\<lparr>key_params = the (ossl_ml_dsa_params_get EVP_PKEY_ML_DSA_44),
      key_seed = None, key_priv = None, key_pub = None\<rparr>" True]
    C4_i2d_pubkey_raw [of "\<lparr>key_params = the (ossl_ml_dsa_params_get EVP_PKEY_ML_DSA_44),
      key_seed = None, key_priv = None, key_pub = Some (replicate 1312 7)\<rparr>" True]
  by (simp add: ossl_ml_dsa_params_get_def)

end
